theory Spec2Isabelle
  imports Main "HOL-Library.Sublist" "HOL-Library.Multiset" "HOL-Library.Word"
begin

section \<open>Library services used by goroutine.go\<close>

text \<open>
  A Go string is a sequence of bytes; \<^typ>\<open>string\<close> (a list of 8-bit characters) is
  the same thing. The functions of this section model the parts of Go's standard library
  that \<^verbatim>\<open>goroutine.go\<close> calls, at the call's own arguments. Writes to standard
  output (\<^verbatim>\<open>fmt.Println\<close>, \<^verbatim>\<open>fmt.Printf\<close>) are diagnostics only and are not
  part of the modelled state.
\<close>

subsection \<open>Errors and outcomes\<close>

datatype num_err = ErrSyntax | ErrRange

text \<open>
  \<open>NumError fn num e\<close> is \<^verbatim>\<open>*strconv.NumError{Func, Num, Err}\<close>; \<open>ErrorString\<close> is what
  \<^verbatim>\<open>errors.New\<close> and \<^verbatim>\<open>fmt.Errorf\<close> build; \<open>ExpressionError\<close> stands for the
  errors of the expression library.
\<close>

datatype error =
    NumError string string num_err
  | ErrorString string
  | ExpressionError string

text \<open>
  A call of the program either panics (the run-time aborts: a slice out of range, a failed
  type assertion), returns an error value, or returns normally.
\<close>

datatype 'a outcome = Panic | Error error | Ok 'a

subsection \<open>package strings\<close>

text \<open>\<^verbatim>\<open>strings.Index(s, sub)\<close>: the index of the first occurrence, or -1.\<close>

fun strings_Index :: "string \<Rightarrow> string \<Rightarrow> int" where
  "strings_Index [] sub = (if sub = [] then 0 else -1)"
| "strings_Index (c # s) sub =
     (if take (length sub) (c # s) = sub then 0
      else (let i = strings_Index s sub in if i < 0 then -1 else i + 1))"

text \<open>
  \<^verbatim>\<open>s[lo:hi]\<close>: Go panics unless \<open>0 \<le> lo \<le> hi \<le> len(s)\<close>; \<open>None\<close> is that panic.
\<close>

definition slice :: "string \<Rightarrow> int \<Rightarrow> int \<Rightarrow> string option" where
  "slice s lo hi =
     (if 0 \<le> lo \<and> lo \<le> hi \<and> hi \<le> int (length s)
      then Some (take (nat hi - nat lo) (drop (nat lo) s)) else None)"

text \<open>
  \<^verbatim>\<open>strings.Split(s, sep)\<close> for a separator of one byte (the program splits at
  \<^verbatim>\<open>","\<close>): the pieces between the separators, never an empty list.
\<close>

primrec strings_Split :: "string \<Rightarrow> char \<Rightarrow> string list" where
  "strings_Split [] sep = [[]]"
| "strings_Split (c # s) sep =
     (if c = sep then [] # strings_Split s sep
      else (case strings_Split s sep of
              [] \<Rightarrow> [[c]]
            | p # ps \<Rightarrow> (c # p) # ps))"

text \<open>
  \<^verbatim>\<open>strings.TrimSpace\<close> removes the leading and trailing runes with Unicode's
  White_Space property. A rune is decoded from, or before, a position exactly when the
  bytes there are its canonical UTF-8 encoding, so trimming is removal of these byte
  sequences: U+0009..U+000D, U+0020, U+0085, U+00A0, U+1680, U+2000..U+200A, U+2028,
  U+2029, U+202F, U+205F, U+3000.
\<close>

definition space_runes :: "string list" where
  "space_runes =
     [[CHR 0x09], [CHR 0x0A], [CHR 0x0B], [CHR 0x0C], [CHR 0x0D], [CHR 0x20],
      [CHR 0xC2, CHR 0x85], [CHR 0xC2, CHR 0xA0],
      [CHR 0xE1, CHR 0x9A, CHR 0x80],
      [CHR 0xE2, CHR 0x80, CHR 0x80], [CHR 0xE2, CHR 0x80, CHR 0x81],
      [CHR 0xE2, CHR 0x80, CHR 0x82], [CHR 0xE2, CHR 0x80, CHR 0x83],
      [CHR 0xE2, CHR 0x80, CHR 0x84], [CHR 0xE2, CHR 0x80, CHR 0x85],
      [CHR 0xE2, CHR 0x80, CHR 0x86], [CHR 0xE2, CHR 0x80, CHR 0x87],
      [CHR 0xE2, CHR 0x80, CHR 0x88], [CHR 0xE2, CHR 0x80, CHR 0x89],
      [CHR 0xE2, CHR 0x80, CHR 0x8A],
      [CHR 0xE2, CHR 0x80, CHR 0xA8], [CHR 0xE2, CHR 0x80, CHR 0xA9],
      [CHR 0xE2, CHR 0x80, CHR 0xAF],
      [CHR 0xE2, CHR 0x81, CHR 0x9F],
      [CHR 0xE3, CHR 0x80, CHR 0x80]]"

text \<open>The length of the space rune that starts \<open>s\<close>, or 0 when none does.\<close>

definition leading_space :: "string \<Rightarrow> nat" where
  "leading_space s =
     (case List.find (\<lambda>w. take (length w) s = w) space_runes of
        None \<Rightarrow> 0
      | Some w \<Rightarrow> length w)"

text \<open>
  The loop of \<^verbatim>\<open>TrimLeftFunc\<close>; \<open>n\<close> bounds the number of runes removed and is the
  length of the string at the call.
\<close>

fun trim_left :: "nat \<Rightarrow> string \<Rightarrow> string" where
  "trim_left 0 s = s"
| "trim_left (Suc n) s =
     (if leading_space s = 0 then s else trim_left n (drop (leading_space s) s))"

definition trailing_space :: "string \<Rightarrow> nat" where
  "trailing_space s =
     (case List.find (\<lambda>w. take (length w) (rev s) = rev w) space_runes of
        None \<Rightarrow> 0
      | Some w \<Rightarrow> length w)"

fun trim_right :: "nat \<Rightarrow> string \<Rightarrow> string" where
  "trim_right 0 s = s"
| "trim_right (Suc n) s =
     (if trailing_space s = 0 then s
      else trim_right n (take (length s - trailing_space s) s))"

definition strings_TrimSpace :: "string \<Rightarrow> string" where
  "strings_TrimSpace s =
     (let t = trim_left (length s) s in trim_right (length t) t)"

text \<open>\<^verbatim>\<open>strings.Trim(s, "\"")\<close>: all leading and trailing double quotes removed.\<close>

definition strings_Trim_quote :: "string \<Rightarrow> string" where
  "strings_Trim_quote s =
     rev (dropWhile (\<lambda>c. c = CHR 0x22) (rev (dropWhile (\<lambda>c. c = CHR 0x22) s)))"

subsection \<open>package strconv\<close>

definition is_digit :: "char \<Rightarrow> bool" where
  "is_digit c = (c \<in> set ''0123456789'')"

definition digit_val :: "char \<Rightarrow> nat" where
  "digit_val c = of_char c - 48"

text \<open>
  The digit loop of \<^verbatim>\<open>strconv.ParseUint(s, 10, 64)\<close>: it stops at the first byte that
  is not a decimal digit (syntax error) and at the first digit that takes the value out of
  64 bits (range error), whichever comes first.
\<close>

fun parse_digits :: "nat \<Rightarrow> string \<Rightarrow> num_err + nat" where
  "parse_digits n [] = Inr n"
| "parse_digits n (c # cs) =
     (if \<not> is_digit c then Inl ErrSyntax
      else if n * 10 + digit_val c \<ge> 2 ^ 64 then Inl ErrRange
      else parse_digits (n * 10 + digit_val c) cs)"

text \<open>
  \<^verbatim>\<open>strconv.Atoi\<close> on a 64-bit platform: an optional sign, at least one decimal
  digit, and a value within \<open>-2^63 .. 2^63 - 1\<close>.
\<close>

definition strconv_Atoi :: "string \<Rightarrow> error + int" where
  "strconv_Atoi s =
     (let neg = (s \<noteq> [] \<and> hd s = CHR ''-'');
          body = (if s \<noteq> [] \<and> (hd s = CHR ''+'' \<or> hd s = CHR ''-'') then tl s else s)
      in if body = [] then Inl (NumError ''Atoi'' s ErrSyntax)
         else (case parse_digits 0 body of
                 Inl ErrSyntax \<Rightarrow> Inl (NumError ''Atoi'' s ErrSyntax)
               | Inl ErrRange \<Rightarrow> Inl (NumError ''Atoi'' s ErrRange)
               | Inr un \<Rightarrow>
                   if \<not> neg \<and> un \<ge> 2 ^ 63 then Inl (NumError ''Atoi'' s ErrRange)
                   else if neg \<and> un > 2 ^ 63 then Inl (NumError ''Atoi'' s ErrRange)
                   else Inr (if neg then - int un else int un)))"

subsection \<open>package encoding/hex\<close>

definition hextable :: string where
  "hextable = ''0123456789abcdef''"

definition hex_EncodeToString :: "string \<Rightarrow> string" where
  "hex_EncodeToString bs =
     concat (map (\<lambda>b. [hextable ! (of_char b div 16), hextable ! (of_char b mod 16)]) bs)"

subsection \<open>package regexp\<close>

text \<open>
  The patterns of the program use literal bytes, byte classes, concatenation and \<open>+\<close>,
  all over ASCII, so matching bytes is matching runes. \<open>Void\<close>, \<open>Unit\<close>, \<open>Either\<close> and
  \<open>Many\<close> only arise as derivatives.
\<close>

datatype regex =
    Void
  | Unit
  | Byte char
  | Class "char list"
  | Either regex regex
  | Then regex regex
  | Many regex
  | Many1 regex

primrec nullable :: "regex \<Rightarrow> bool" where
  "nullable Void = False"
| "nullable Unit = True"
| "nullable (Byte c) = False"
| "nullable (Class cs) = False"
| "nullable (Either r s) = (nullable r \<or> nullable s)"
| "nullable (Then r s) = (nullable r \<and> nullable s)"
| "nullable (Many r) = True"
| "nullable (Many1 r) = nullable r"

primrec deriv :: "char \<Rightarrow> regex \<Rightarrow> regex" where
  "deriv a Void = Void"
| "deriv a Unit = Void"
| "deriv a (Byte c) = (if a = c then Unit else Void)"
| "deriv a (Class cs) = (if a \<in> set cs then Unit else Void)"
| "deriv a (Either r s) = Either (deriv a r) (deriv a s)"
| "deriv a (Then r s) =
     (if nullable r then Either (Then (deriv a r) s) (deriv a s) else Then (deriv a r) s)"
| "deriv a (Many r) = Then (deriv a r) (Many r)"
| "deriv a (Many1 r) = Then (deriv a r) (Many r)"

text \<open>\<open>matches r s\<close>: the whole of \<open>s\<close> is a word of \<open>r\<close>.\<close>

primrec matches :: "regex \<Rightarrow> string \<Rightarrow> bool" where
  "matches r [] = nullable r"
| "matches r (a # s) = matches (deriv a r) s"

text \<open>
  A pattern that ends in \<open>$\<close> (no multi-line flag: the end of the text) matches from a
  position when the whole rest of the text is a word of it. Go takes the leftmost
  position; \<open>find_at_end r s\<close> is that position.
\<close>

fun find_at_end :: "regex \<Rightarrow> string \<Rightarrow> nat option" where
  "find_at_end r [] = (if matches r [] then Some 0 else None)"
| "find_at_end r (a # s) =
     (if matches r (a # s) then Some 0 else map_option Suc (find_at_end r s))"

text \<open>
  \<^verbatim>\<open>re.FindAllStringIndex(s, -1)\<close> for such a pattern, when it has no empty word: a
  match ends at the end of the text, so there is at most one.
\<close>

definition FindAllStringIndex :: "regex \<Rightarrow> string \<Rightarrow> (nat \<times> nat) list" where
  "FindAllStringIndex r s =
     (case find_at_end r s of None \<Rightarrow> [] | Some i \<Rightarrow> [(i, length s)])"

definition MatchString :: "regex \<Rightarrow> string \<Rightarrow> bool" where
  "MatchString r s = (find_at_end r s \<noteq> None)"

text \<open>
  The loop of \<^verbatim>\<open>re.Split(s, -1)\<close> over the matches: \<open>beg\<close> and \<open>fin\<close> are Go's
  \<^verbatim>\<open>beg\<close> and \<^verbatim>\<open>end\<close>, \<open>acc\<close> the pieces so far.
\<close>

fun split_loop :: "string \<Rightarrow> (nat \<times> nat) list \<Rightarrow> nat \<Rightarrow> nat \<Rightarrow> string list \<Rightarrow> string list" where
  "split_loop s [] beg fin acc = (if fin \<noteq> length s then acc @ [drop beg s] else acc)"
| "split_loop s ((m0, m1) # ms) beg fin acc =
     split_loop s ms m1 m0 (if m1 \<noteq> 0 then acc @ [take (m0 - beg) (drop beg s)] else acc)"

definition regexp_Split :: "regex \<Rightarrow> string \<Rightarrow> string list" where
  "regexp_Split r s =
     (if s = [] then [[]] else split_loop s (FindAllStringIndex r s) 0 0 [])"

text \<open>A literal run of bytes.\<close>

primrec lit :: "string \<Rightarrow> regex" where
  "lit [] = Unit"
| "lit (c # cs) = Then (Byte c) (lit cs)"

section \<open>The goroutine record\<close>

text \<open>
  \<^verbatim>\<open>type MetaType int\<close> with its two values. Go's \<^verbatim>\<open>int\<close> is modelled by
  \<^typ>\<open>int\<close>: a line counter does not reach \<open>2^63\<close>.
\<close>

type_synonym MetaType = int

definition MetaState :: MetaType where
  "MetaState = 0"

definition MetaDuration :: MetaType where
  "MetaDuration = 1"

text \<open>
  \<^verbatim>\<open>durationPattern = regexp.MustCompile(`^\d+ minutes$`)\<close>. It is anchored at both
  ends, so it matches a text when the whole text is a word of it (\<open>matches\<close>).
\<close>

definition durationPattern :: regex where
  "durationPattern = Then (Many1 (Class ''0123456789'')) (lit '' minutes'')"

text \<open>
  \<^verbatim>\<open>lineWithArgs = regexp.MustCompile(`\((0x[0-9a-f ,]+)+\)$`)\<close>, in two parts:
  \<open>hexGroup\<close> is \<^verbatim>\<open>0x[0-9a-f ,]+\<close> and \<open>hexGroups\<close> is \<^verbatim>\<open>(0x[0-9a-f ,]+)+\<close>.
\<close>

definition hexGroup :: regex where
  "hexGroup = Then (Byte (CHR ''0'')) (Then (Byte (CHR ''x'')) (Many1 (Class ''0123456789abcdef ,'')))"

definition hexGroups :: regex where
  "hexGroups = Many1 hexGroup"

definition lineWithArgs :: regex where
  "lineWithArgs = Then (Byte (CHR ''('')) (Then hexGroups (Byte (CHR '')'')))"

text \<open>
  \<^verbatim>\<open>type Goroutine struct\<close>. The field \<^verbatim>\<open>id\<close> is named \<open>goid\<close> here. The two
  \<^verbatim>\<open>*bytes.Buffer\<close> are their contents. \<open>fullHasher\<close> is the state of the
  \<^verbatim>\<open>hash.Hash\<close>: the bytes written to it so far.
\<close>

record Goroutine =
  goid :: int
  header :: string
  lines :: int
  duration :: int
  metas :: "MetaType \<rightharpoonup> string"
  scrubbedHash :: string
  fullHasher :: string
  bufScrubbed :: string
  duplicates :: "int list"
  frozen :: bool
  buf :: string

text \<open>
  \<^verbatim>\<open>h.Sum(b)\<close> of \<^verbatim>\<open>hash.Hash\<close> appends the digest of what was written to \<open>h\<close> to
  the slice \<open>b\<close> and returns the result; \<open>b\<close> is not hashed. The digest function of
  \<^verbatim>\<open>crypto/md5\<close> is the parameter \<open>md5\<close>.
\<close>

definition hash_Sum :: "(string \<Rightarrow> string) \<Rightarrow> string \<Rightarrow> string \<Rightarrow> string" where
  "hash_Sum md5 h b = b @ md5 h"

text \<open>
  \<^verbatim>\<open>func (g *Goroutine) AddLine(l string)\<close>. \<^verbatim>\<open>ss[0]\<close> panics on an empty slice.
  The last block of the function (a line that starts with a tab and does not split into
  two parts at spaces) only prints and returns, at the end of the function anyway.
\<close>

definition AddLine :: "Goroutine \<Rightarrow> string \<Rightarrow> Goroutine outcome" where
  "AddLine g l =
     (if \<not> frozen g then
        (let g1 = g\<lparr>lines := lines g + 1, buf := buf g @ l @ [CHR 0x0A]\<rparr>
         in if MatchString lineWithArgs l then
              (case regexp_Split lineWithArgs l of
                 [] \<Rightarrow> Panic
               | s0 # _ \<Rightarrow> Ok (g1\<lparr>bufScrubbed := bufScrubbed g1 @ s0 @ ''(...)'' @ [CHR 0x0A]\<rparr>))
            else Ok (g1\<lparr>bufScrubbed := bufScrubbed g1 @ l @ [CHR 0x0A]\<rparr>))
      else Ok g)"

text \<open>The loader's calls of \<^verbatim>\<open>AddLine\<close>, one per body line.\<close>

fun AddLines :: "Goroutine \<Rightarrow> string list \<Rightarrow> Goroutine outcome" where
  "AddLines g [] = Ok g"
| "AddLines g (l # ls) =
     (case AddLine g l of
        Panic \<Rightarrow> Panic
      | Error e \<Rightarrow> Error e
      | Ok g' \<Rightarrow> AddLines g' ls)"

text \<open>\<^verbatim>\<open>func (g *Goroutine) Freeze()\<close>\<close>

definition Freeze :: "(string \<Rightarrow> string) \<Rightarrow> Goroutine \<Rightarrow> Goroutine" where
  "Freeze md5 g =
     (if \<not> frozen g then
        g\<lparr>frozen := True,
          scrubbedHash := hex_EncodeToString (hash_Sum md5 (fullHasher g) (bufScrubbed g))\<rparr>
      else g)"

text \<open>
  The duration of \<^verbatim>\<open>NewGoroutine\<close>: the block under
  \<^verbatim>\<open>if durationPattern.MatchString(value)\<close>.
\<close>

definition parse_duration :: "string \<Rightarrow> int outcome" where
  "parse_duration v =
     (if matches durationPattern v then
        (case slice v 0 (int (length v) - 8) of
           None \<Rightarrow> Panic
         | Some t \<Rightarrow> (case strconv_Atoi t of Inr d \<Rightarrow> Ok d | Inl _ \<Rightarrow> Ok 0))
      else Ok 0)"

text \<open>\<^verbatim>\<open>func NewGoroutine(metaline string) (*Goroutine, error)\<close>, in the order of the source.\<close>

definition NewGoroutine :: "string \<Rightarrow> Goroutine outcome" where
  "NewGoroutine metaline =
     (let idx = strings_Index metaline ''[''
      in case slice metaline (idx + 1) (int (length metaline) - 2) of
           None \<Rightarrow> Panic
         | Some inner \<Rightarrow>
             (case strings_Split inner (CHR '','') of
                [] \<Rightarrow> Panic
              | p0 # ps \<Rightarrow>
                  (let metas0 = [MetaState \<mapsto> strings_TrimSpace p0];
                       v = (case ps of [] \<Rightarrow> [] | p1 # _ \<Rightarrow> strings_TrimSpace p1);
                       metas1 = (if ps \<noteq> [] then metas0(MetaDuration \<mapsto> v) else metas0)
                   in case (if ps \<noteq> [] then parse_duration v else Ok 0) of
                        Panic \<Rightarrow> Panic
                      | Error e \<Rightarrow> Error e
                      | Ok d \<Rightarrow>
                          (case slice metaline 9 idx of
                             None \<Rightarrow> Panic
                           | Some idstr \<Rightarrow>
                               (case strconv_Atoi (strings_TrimSpace idstr) of
                                  Inl e \<Rightarrow> Error e
                                | Inr n \<Rightarrow>
                                    Ok \<lparr>goid = n, header = metaline, lines = 1, duration = d,
                                        metas = metas1, scrubbedHash = [], fullHasher = [],
                                        bufScrubbed = [], duplicates = [], frozen = False,
                                        buf = []\<rparr>)))))"

section \<open>Predicates over a record\<close>

text \<open>
  The dynamic values (\<^verbatim>\<open>interface{}\<close>) that reach the expression library and the
  functions of the program: strings, booleans, Go \<^verbatim>\<open>int\<close>s (what the program stores in
  the parameter map), \<^verbatim>\<open>float64\<close>s (the library's numbers, kept as their 64 bits and
  never computed with), \<^verbatim>\<open>nil\<close> and slices.
\<close>

datatype val =
    VString string
  | VBool bool
  | VInt int
  | VFloat64 "64 word"
  | VNil
  | VSlice "val list"

type_synonym params = "string \<rightharpoonup> val"

text \<open>
  A compiled expression is its \<^verbatim>\<open>Evaluate\<close> method: from the parameters to a value, an
  error or a panic. The compiler \<^verbatim>\<open>govaluate.NewEvaluableExpressionWithFunctions(cond,
  functions)\<close> is a parameter of the operations below, of type \<open>compiler\<close>.
\<close>

type_synonym expression = "params \<Rightarrow> val outcome"

type_synonym compiler = "string \<Rightarrow> error + expression"

type_synonym ExpressionFunction = "val list \<Rightarrow> val outcome"

text \<open>
  The three closures of the table \<^verbatim>\<open>functions\<close> (\<open>functions_table\<close> here). \<^verbatim>\<open>args[i].(string)\<close> is a type
  assertion without the \<^verbatim>\<open>, ok\<close> form: it panics on a value that is not a string.
  \<^verbatim>\<open>strings.ToLower\<close> and \<^verbatim>\<open>strings.ToUpper\<close> (Unicode case mapping) are parameters.
\<close>

definition contains_fn :: ExpressionFunction where
  "contains_fn args =
     (if length args \<noteq> 2 then Error (ErrorString ''contains() accepts exactly two arguments'')
      else (case args ! 0 of
              VString s \<Rightarrow>
                (case args ! 1 of
                   VString sub \<Rightarrow> Ok (VBool (strings_Index s sub > -1))
                 | _ \<Rightarrow> Panic)
            | _ \<Rightarrow> Panic))"

definition lower_fn :: "(string \<Rightarrow> string) \<Rightarrow> ExpressionFunction" where
  "lower_fn ToLower args =
     (if length args \<noteq> 1 then Error (ErrorString ''lower() accepts exactly one arguments'')
      else (case args ! 0 of
              VString s \<Rightarrow> Ok (VString (ToLower s))
            | _ \<Rightarrow> Panic))"

definition upper_fn :: "(string \<Rightarrow> string) \<Rightarrow> ExpressionFunction" where
  "upper_fn ToUpper args =
     (if length args \<noteq> 1 then Error (ErrorString ''upper() accepts exactly one arguments'')
      else (case args ! 0 of
              VString s \<Rightarrow> Ok (VString (ToUpper s))
            | _ \<Rightarrow> Panic))"

definition functions_table ::
  "(string \<Rightarrow> string) \<Rightarrow> (string \<Rightarrow> string) \<Rightarrow> string \<rightharpoonup> ExpressionFunction" where
  "functions_table ToLower ToUpper =
     [''contains'' \<mapsto> contains_fn, ''lower'' \<mapsto> lower_fn ToLower, ''upper'' \<mapsto> upper_fn ToUpper]"

text \<open>
  How the expression library evaluates a reference to a parameter and a call of a function
  of the table: the arguments are evaluated from left to right, the first error or panic
  among them ends the evaluation, and the function's own result, error or panic is the
  call's (the library does not recover from a panic).
\<close>

definition parameter_stage :: "string \<Rightarrow> expression" where
  "parameter_stage name ps =
     (case ps name of
        None \<Rightarrow> Error (ExpressionError (''No parameter '' @ name @ '' found.''))
      | Some v \<Rightarrow> Ok v)"

fun eval_args :: "expression list \<Rightarrow> params \<Rightarrow> val list outcome" where
  "eval_args [] ps = Ok []"
| "eval_args (a # as) ps =
     (case a ps of
        Panic \<Rightarrow> Panic
      | Error e \<Rightarrow> Error e
      | Ok v \<Rightarrow>
          (case eval_args as ps of
             Panic \<Rightarrow> Panic
           | Error e \<Rightarrow> Error e
           | Ok vs \<Rightarrow> Ok (v # vs)))"

definition function_stage :: "ExpressionFunction \<Rightarrow> expression list \<Rightarrow> expression" where
  "function_stage f as ps =
     (case eval_args as ps of
        Panic \<Rightarrow> Panic
      | Error e \<Rightarrow> Error e
      | Ok vs \<Rightarrow> f vs)"

section \<open>The dump\<close>

text \<open>
  A dump holds pointers to records, and \<^verbatim>\<open>Dedupe\<close> writes through them, so the records
  live in a store. Every pointer of a dump refers to a record (\<^verbatim>\<open>Add\<close> is called with
  the result of a successful \<^verbatim>\<open>NewGoroutine\<close>).
\<close>

type_synonym ptr = nat

type_synonym heap = "ptr \<Rightarrow> Goroutine"

record GoroutineDump =
  goroutines :: "ptr list"

definition NewGoroutineDump :: GoroutineDump where
  "NewGoroutineDump = \<lparr>goroutines = []\<rparr>"

definition Add :: "GoroutineDump \<Rightarrow> ptr \<Rightarrow> GoroutineDump" where
  "Add gd g = gd\<lparr>goroutines := goroutines gd @ [g]\<rparr>"

text \<open>
  Go leaves the order in which \<^verbatim>\<open>range\<close> visits the keys of a map unspecified. A loop
  over a map \<open>m\<close> therefore takes the order as a list \<open>ks\<close> of keys; the orders Go can
  take are those with \<open>range_order m ks\<close>: every key once.
\<close>

definition range_order :: "('k \<rightharpoonup> 'v) \<Rightarrow> 'k list \<Rightarrow> bool" where
  "range_order m ks = (distinct ks \<and> set ks = dom m)"

text \<open>The parameter map that \<^verbatim>\<open>withCondition\<close> builds for a record.\<close>

definition params_of :: "Goroutine \<Rightarrow> params" where
  "params_of g =
     [''id'' \<mapsto> VInt (goid g),
      ''dups'' \<mapsto> VInt (int (length (duplicates g))),
      ''duration'' \<mapsto> VInt (duration g),
      ''lines'' \<mapsto> VInt (lines g),
      ''state'' \<mapsto> VString (case metas g MetaState of None \<Rightarrow> [] | Some s \<Rightarrow> s),
      ''trace'' \<mapsto> VString (buf g)]"

text \<open>
  The loop of \<^verbatim>\<open>withCondition\<close>: \<open>i\<close> is the index, \<open>acc\<close> the slice
  \<^verbatim>\<open>goroutines\<close> built so far.
\<close>

fun condition_loop ::
  "expression \<Rightarrow> (nat \<Rightarrow> ptr \<Rightarrow> bool \<Rightarrow> ptr option) \<Rightarrow> heap \<Rightarrow> nat \<Rightarrow> ptr list \<Rightarrow> ptr list
     \<Rightarrow> ptr list outcome" where
  "condition_loop x callback h i [] acc = Ok acc"
| "condition_loop x callback h i (g # gs) acc =
     (case x (params_of (h g)) of
        Panic \<Rightarrow> Panic
      | Error e \<Rightarrow> Error e
      | Ok res \<Rightarrow>
          (case res of
             VBool b \<Rightarrow>
               condition_loop x callback h (i + 1) gs
                 (case callback i g b of None \<Rightarrow> acc | Some gor \<Rightarrow> acc @ [gor])
           | _ \<Rightarrow> Error (ErrorString ''argument expression should return a boolean'')))"

definition withCondition ::
  "compiler \<Rightarrow> string \<Rightarrow> (nat \<Rightarrow> ptr \<Rightarrow> bool \<Rightarrow> ptr option) \<Rightarrow> heap \<Rightarrow> GoroutineDump
     \<Rightarrow> ptr list outcome" where
  "withCondition compile cond callback h gd =
     (case compile (strings_Trim_quote cond) of
        Inl e \<Rightarrow> Error e
      | Inr x \<Rightarrow> condition_loop x callback h 0 (goroutines gd) [])"

text \<open>
  \<^verbatim>\<open>Delete\<close> and \<^verbatim>\<open>Keep\<close> return the \<^verbatim>\<open>error\<close> (\<open>Ok ()\<close> is \<^verbatim>\<open>nil\<close>) and the
  dump after the call.
\<close>

definition Delete :: "compiler \<Rightarrow> string \<Rightarrow> heap \<Rightarrow> GoroutineDump \<Rightarrow> unit outcome \<times> GoroutineDump" where
  "Delete compile cond h gd =
     (case withCondition compile cond (\<lambda>i g passed. if \<not> passed then Some g else None) h gd of
        Panic \<Rightarrow> (Panic, gd)
      | Error e \<Rightarrow> (Error e, gd)
      | Ok gs \<Rightarrow> (Ok (), gd\<lparr>goroutines := gs\<rparr>))"

definition Keep :: "compiler \<Rightarrow> string \<Rightarrow> heap \<Rightarrow> GoroutineDump \<Rightarrow> unit outcome \<times> GoroutineDump" where
  "Keep compile cond h gd =
     (case withCondition compile cond (\<lambda>i g passed. if passed then Some g else None) h gd of
        Panic \<Rightarrow> (Panic, gd)
      | Error e \<Rightarrow> (Error e, gd)
      | Ok gs \<Rightarrow> (Ok (), gd\<lparr>goroutines := gs\<rparr>))"

text \<open>\<^verbatim>\<open>Copy\<close> returns a new dump, or \<^verbatim>\<open>nil\<close> (\<open>None\<close>) after printing the error.\<close>

definition Copy :: "compiler \<Rightarrow> string \<Rightarrow> heap \<Rightarrow> GoroutineDump \<Rightarrow> GoroutineDump option outcome" where
  "Copy compile cond h gd =
     (if cond = [] then Ok (Some \<lparr>goroutines = goroutines gd\<rparr>)
      else (case withCondition compile cond (\<lambda>i g passed. if passed then Some g else None) h gd of
              Panic \<Rightarrow> Panic
            | Error e \<Rightarrow> Ok None
            | Ok gs \<Rightarrow> Ok (Some \<lparr>goroutines = gs\<rparr>)))"

text \<open>\<^verbatim>\<open>Search\<close> only prints; its callback returns \<^verbatim>\<open>nil\<close> for every record.\<close>

definition Search :: "compiler \<Rightarrow> string \<Rightarrow> int \<Rightarrow> int \<Rightarrow> heap \<Rightarrow> GoroutineDump \<Rightarrow> unit outcome" where
  "Search compile cond offset limit h gd =
     (case withCondition compile cond (\<lambda>i g passed. None) h gd of
        Panic \<Rightarrow> Panic
      | Error e \<Rightarrow> Ok ()
      | Ok gs \<Rightarrow> Ok ())"

subsection \<open>Dedupe\<close>

text \<open>
  The first loop of \<^verbatim>\<open>Dedupe\<close>: \<^verbatim>\<open>m[g.scrubbedHash] = append(m[g.scrubbedHash], g.id)\<close>.
\<close>

definition group_step :: "heap \<Rightarrow> (string \<rightharpoonup> int list) \<Rightarrow> ptr \<Rightarrow> (string \<rightharpoonup> int list)" where
  "group_step h m g =
     m(scrubbedHash (h g) \<mapsto> (case m (scrubbedHash (h g)) of None \<Rightarrow> [] | Some ids \<Rightarrow> ids) @ [goid (h g)])"

definition group_ids :: "heap \<Rightarrow> ptr list \<Rightarrow> (string \<rightharpoonup> int list)" where
  "group_ids h gs = foldl (group_step h) Map.empty gs"

text \<open>
  The inner loop: the first record of the dump with the digest gets the group's list and
  is kept; \<^verbatim>\<open>break\<close> ends the loop there.
\<close>

fun mark_first :: "string \<Rightarrow> int list \<Rightarrow> ptr list \<Rightarrow> heap \<times> ptr list \<Rightarrow> heap \<times> ptr list" where
  "mark_first digest ids [] (h, kept) = (h, kept)"
| "mark_first digest ids (g # gs) (h, kept) =
     (if scrubbedHash (h g) = digest
      then (h(g := (h g)\<lparr>duplicates := ids\<rparr>), kept @ [g])
      else mark_first digest ids gs (h, kept))"

text \<open>The outer loop \<^verbatim>\<open>for digest, ids := range m\<close>, in the order \<open>ks\<close>.\<close>

fun dedupe_loop ::
  "(string \<rightharpoonup> int list) \<Rightarrow> string list \<Rightarrow> ptr list \<Rightarrow> heap \<times> ptr list \<Rightarrow> heap \<times> ptr list" where
  "dedupe_loop m [] gs st = st"
| "dedupe_loop m (digest # ks) gs st =
     dedupe_loop m ks gs
       (case m digest of None \<Rightarrow> st | Some ids \<Rightarrow> mark_first digest ids gs st)"

definition Dedupe :: "string list \<Rightarrow> heap \<times> GoroutineDump \<Rightarrow> heap \<times> GoroutineDump" where
  "Dedupe ks st =
     (case st of (h, gd) \<Rightarrow>
        (case dedupe_loop (group_ids h (goroutines gd)) ks (goroutines gd) (h, []) of
           (h', kept) \<Rightarrow>
             (h', if length (goroutines gd) \<noteq> length kept then gd\<lparr>goroutines := kept\<rparr> else gd)))"

subsection \<open>Diff\<close>

text \<open>\<^verbatim>\<open>NewGoroutineDumpFromMap\<close>: the values of the map, in the order \<open>ks\<close> of its keys.\<close>

definition NewGoroutineDumpFromMap :: "int list \<Rightarrow> (int \<rightharpoonup> ptr) \<Rightarrow> GoroutineDump" where
  "NewGoroutineDumpFromMap ks gs = \<lparr>goroutines = List.map_filter gs ks\<rparr>"

text \<open>The two loops of \<^verbatim>\<open>Diff\<close>; the state of the second is \<open>(lonly, common, ronly)\<close>.\<close>

definition left_map :: "heap \<Rightarrow> ptr list \<Rightarrow> (int \<rightharpoonup> ptr)" where
  "left_map h gs = foldl (\<lambda>m v. m(goid (h v) \<mapsto> v)) Map.empty gs"

fun diff_loop ::
  "heap \<Rightarrow> ptr list \<Rightarrow> (int \<rightharpoonup> ptr) \<times> (int \<rightharpoonup> ptr) \<times> (int \<rightharpoonup> ptr)
     \<Rightarrow> (int \<rightharpoonup> ptr) \<times> (int \<rightharpoonup> ptr) \<times> (int \<rightharpoonup> ptr)" where
  "diff_loop h [] st = st"
| "diff_loop h (v # vs) (lonly, common, ronly) =
     diff_loop h vs
       (if lonly (goid (h v)) \<noteq> None
        then (lonly(goid (h v) := None), common(goid (h v) \<mapsto> v), ronly)
        else (lonly, common, ronly(goid (h v) \<mapsto> v)))"

definition diff_maps ::
  "heap \<Rightarrow> GoroutineDump \<Rightarrow> GoroutineDump \<Rightarrow> (int \<rightharpoonup> ptr) \<times> (int \<rightharpoonup> ptr) \<times> (int \<rightharpoonup> ptr)" where
  "diff_maps h gd another =
     diff_loop h (goroutines another) (left_map h (goroutines gd), Map.empty, Map.empty)"

definition Diff ::
  "int list \<Rightarrow> int list \<Rightarrow> int list \<Rightarrow> heap \<Rightarrow> GoroutineDump \<Rightarrow> GoroutineDump
     \<Rightarrow> GoroutineDump \<times> GoroutineDump \<times> GoroutineDump" where
  "Diff kl kc kr h gd another =
     (case diff_maps h gd another of
        (lonly, common, ronly) \<Rightarrow>
          (NewGoroutineDumpFromMap kl lonly, NewGoroutineDumpFromMap kc common,
           NewGoroutineDumpFromMap kr ronly))"

section \<open>Notions used in the statements and proofs\<close>

text \<open>The bytes that occur in a pattern.\<close>

primrec chars_of :: "regex \<Rightarrow> char set" where
  "chars_of Void = {}"
| "chars_of Unit = {}"
| "chars_of (Byte c) = {c}"
| "chars_of (Class cs) = set cs"
| "chars_of (Either r s) = chars_of r \<union> chars_of s"
| "chars_of (Then r s) = chars_of r \<union> chars_of s"
| "chars_of (Many r) = chars_of r"
| "chars_of (Many1 r) = chars_of r"

text \<open>
  What \<^verbatim>\<open>AddLine\<close> appends to the scrubbed buffer for a line: the line with its
  trailing argument group replaced, or the line itself, and a newline.
\<close>

definition scrub :: "string \<Rightarrow> string" where
  "scrub l =
     (case find_at_end lineWithArgs l of
        None \<Rightarrow> l @ [CHR 0x0A]
      | Some i \<Rightarrow> take i l @ ''(...)'' @ [CHR 0x0A])"

text \<open>
  Two body lines differ only in the hexadecimal values of a trailing argument group: they
  are equal, or they have the same text up to and including an opening parenthesis, then
  each an argument group of the pattern's form \<^verbatim>\<open>(0x[0-9a-f ,]+)+\<close>, then the
  closing parenthesis that ends the line.
\<close>

definition differ_only_in_hex_args :: "string \<Rightarrow> string \<Rightarrow> bool" where
  "differ_only_in_hex_args l1 l2 =
     (l1 = l2 \<or>
      (\<exists>pre a1 a2. l1 = pre @ ''('' @ a1 @ '')'' \<and> l2 = pre @ ''('' @ a2 @ '')'' \<and>
         matches hexGroups a1 \<and> matches hexGroups a2))"

text \<open>
  The normalization of a body line as the specification words it: the line ends in a
  parenthesized group of the pattern's form \<^verbatim>\<open>(0x[0-9a-f ,]+)+\<close> when, from some
  position on, it reads an opening parenthesis, such a group, and a closing parenthesis
  that ends the line; then that trailing group is replaced by the placeholder
  \<^verbatim>\<open>(...)\<close>, otherwise the line is kept unchanged. The normalized body is the
  normalized lines, each followed by a newline.
\<close>

definition ends_in_hex_args :: "string \<Rightarrow> nat \<Rightarrow> bool" where
  "ends_in_hex_args l i =
     (case drop i l of
        [] \<Rightarrow> False
      | c # w \<Rightarrow> c = CHR ''('' \<and> w \<noteq> [] \<and> last w = CHR '')'' \<and> matches hexGroups (butlast w))"

definition spec_scrub_line :: "string \<Rightarrow> string" where
  "spec_scrub_line l =
     (case filter (ends_in_hex_args l) [0..<length l] of
        [] \<Rightarrow> l
      | i # _ \<Rightarrow> take i l @ ''(...)'')"

definition spec_normalized_body :: "string list \<Rightarrow> string" where
  "spec_normalized_body ls = concat (map (\<lambda>l. spec_scrub_line l @ [CHR 0x0A]) ls)"

text \<open>
  The argument lists that Go's traceback prints: hexadecimal numerals \<^verbatim>\<open>0x...\<close> in
  lower case, separated by a comma and a space.
\<close>

definition hex_value :: "string \<Rightarrow> bool" where
  "hex_value v = (\<exists>ds. v = ''0x'' @ ds \<and> ds \<noteq> [] \<and> set ds \<subseteq> set ''0123456789abcdef'')"

fun join_args :: "string list \<Rightarrow> string" where
  "join_args [] = []"
| "join_args [v] = v"
| "join_args (v # w # vs) = v @ '', '' @ join_args (w # vs)"

text \<open>
  The metadata lines on which \<^verbatim>\<open>NewGoroutine\<close> slices within bounds: the first
  \<^verbatim>\<open>[\<close> stands at index 9 or later and at least two bytes follow it.
\<close>

definition header_shape :: "string \<Rightarrow> bool" where
  "header_shape m =
     (9 \<le> strings_Index m ''['' \<and> strings_Index m ''['' + 3 \<le> int (length m))"

text \<open>The text of the identity: \<^verbatim>\<open>strings.TrimSpace(metaline[9:idx])\<close>.\<close>

definition identity_text :: "string \<Rightarrow> string" where
  "identity_text m = strings_TrimSpace (take (nat (strings_Index m ''['') - 9) (drop 9 m))"

text \<open>
  \<open>integer_text s n\<close>: \<open>s\<close> is the decimal text of the integer \<open>n\<close> of 64 bits, an
  optional sign and at least one digit.
\<close>

definition decimal_value :: "string \<Rightarrow> nat" where
  "decimal_value ds = foldl (\<lambda>n c. n * 10 + digit_val c) 0 ds"

definition integer_text :: "string \<Rightarrow> int \<Rightarrow> bool" where
  "integer_text s n =
     (\<exists>sign ds. s = sign @ ds \<and> (sign = [] \<or> sign = ''+'' \<or> sign = ''-'') \<and>
        ds \<noteq> [] \<and> list_all is_digit ds \<and>
        n = (if sign = ''-'' then - int (decimal_value ds) else int (decimal_value ds)) \<and>
        - (2 ^ 63) \<le> n \<and> n < 2 ^ 63)"

text \<open>A value is a string: the type assertion \<^verbatim>\<open>.(string)\<close> succeeds on it.\<close>

fun is_string :: "val \<Rightarrow> bool" where
  "is_string (VString s) = True"
| "is_string v = False"

text \<open>The predicate evaluates to a boolean on a record; it evaluates to true on it.\<close>

definition boolean_on :: "expression \<Rightarrow> heap \<Rightarrow> ptr \<Rightarrow> bool" where
  "boolean_on x h g = (\<exists>b. x (params_of (h g)) = Ok (VBool b))"

definition passes :: "expression \<Rightarrow> heap \<Rightarrow> ptr \<Rightarrow> bool" where
  "passes x h g = (x (params_of (h g)) = Ok (VBool True))"

text \<open>The identities of the records of a dump, in order.\<close>

definition identities :: "heap \<Rightarrow> GoroutineDump \<Rightarrow> int list" where
  "identities h gd = map (\<lambda>g. goid (h g)) (goroutines gd)"

text \<open>
  What \<^verbatim>\<open>withCondition\<close> returns when the loop ends at a record on which the predicate
  is not a boolean.
\<close>

definition stop_result :: "val outcome \<Rightarrow> ptr list outcome" where
  "stop_result r =
     (case r of
        Panic \<Rightarrow> Panic
      | Error e \<Rightarrow> Error e
      | Ok v \<Rightarrow> Error (ErrorString ''argument expression should return a boolean''))"

text \<open>A map from identities to records in which every record stands under its own identity.\<close>

definition keyed :: "heap \<Rightarrow> (int \<rightharpoonup> ptr) \<Rightarrow> bool" where
  "keyed h m = (\<forall>k v. m k = Some v \<longrightarrow> goid (h v) = k)"

text \<open>
  For the statements about \<^verbatim>\<open>Dedupe\<close>: the fingerprints of a sequence of records, the
  first record of a sequence with a given fingerprint, the identities of the records with
  a given fingerprint in the order of the sequence, and a record that is the first of the
  sequence with its fingerprint.
\<close>

definition first_with :: "heap \<Rightarrow> ptr list \<Rightarrow> string \<Rightarrow> ptr option" where
  "first_with h gs k = List.find (\<lambda>g. scrubbedHash (h g) = k) gs"

definition group_of :: "heap \<Rightarrow> ptr list \<Rightarrow> string \<Rightarrow> int list" where
  "group_of h gs k = map (\<lambda>g. goid (h g)) (filter (\<lambda>g. scrubbedHash (h g) = k) gs)"

definition is_first :: "heap \<Rightarrow> ptr list \<Rightarrow> ptr \<Rightarrow> bool" where
  "is_first h gs g = (first_with h gs (scrubbedHash (h g)) = Some g)"

definition fingerprints :: "heap \<Rightarrow> ptr list \<Rightarrow> string list" where
  "fingerprints h gs = map (\<lambda>g. scrubbedHash (h g)) gs"

text \<open>The store after the loop over the keys \<open>ks\<close>.\<close>

definition marked :: "(string \<rightharpoonup> int list) \<Rightarrow> string list \<Rightarrow> ptr list \<Rightarrow> heap \<Rightarrow> heap" where
  "marked m ks gs h =
     (\<lambda>p. if \<exists>k\<in>set ks. first_with h gs k = Some p
          then (h p)\<lparr>duplicates := the (m (scrubbedHash (h p)))\<rparr> else h p)"

section \<open>Sample data\<close>

text \<open>The MD5 digest of the empty input, d41d8cd98f00b204e9800998ecf8427e, as bytes.\<close>

definition md5_of_empty :: string where
  "md5_of_empty =
     [CHR 0xD4, CHR 0x1D, CHR 0x8C, CHR 0xD9, CHR 0x8F, CHR 0x00, CHR 0xB2, CHR 0x04,
      CHR 0xE9, CHR 0x80, CHR 0x09, CHR 0x98, CHR 0xEC, CHR 0xF8, CHR 0x42, CHR 0x7E]"

text \<open>A record as \<^verbatim>\<open>NewGoroutine\<close> returns it for \<^verbatim>\<open>goroutine 1 [running]:\<close>.\<close>

definition sample_record :: Goroutine where
  "sample_record =
     \<lparr>goid = 1, header = ''goroutine 1 [running]:'', lines = 1, duration = 0,
      metas = [MetaState \<mapsto> ''running''], scrubbedHash = [], fullHasher = [],
      bufScrubbed = [], duplicates = [], frozen = False, buf = []\<rparr>"

definition sample_record2 :: Goroutine where
  "sample_record2 =
     \<lparr>goid = 2, header = ''goroutine 2 [running]:'', lines = 1, duration = 0,
      metas = [MetaState \<mapsto> ''running''], scrubbedHash = [], fullHasher = [],
      bufScrubbed = [], duplicates = [], frozen = False, buf = []\<rparr>"

text \<open>
  A store of four finalized records: identity, number of lines and fingerprint. The
  records 0 and 2 have the same fingerprint; the records 0 and 3 have the same identity.
\<close>

definition sample_entry :: "int \<Rightarrow> int \<Rightarrow> string \<Rightarrow> Goroutine" where
  "sample_entry i n fp = sample_record\<lparr>goid := i, lines := n, scrubbedHash := fp, frozen := True\<rparr>"

definition sample_heap :: heap where
  "sample_heap =
     (\<lambda>p. if p = 0 then sample_entry 1 2 ''aa''
          else if p = 1 then sample_entry 2 3 ''bb''
          else if p = 2 then sample_entry 3 2 ''aa''
          else sample_entry 1 3 ''cc'')"

text \<open>
  A compiler that knows three conditions: a comparison, \<^verbatim>\<open>contains\<close> with one argument
  and \<^verbatim>\<open>contains\<close> with two numbers.
\<close>

definition sample_compile :: compiler where
  "sample_compile c =
     (if c = ''lines == 2'' then Inr (\<lambda>ps. Ok (VBool (ps ''lines'' = Some (VInt 2))))
      else if c = ''contains(trace)'' then
        Inr (function_stage contains_fn [parameter_stage ''trace''])
      else if c = ''contains(id, lines)'' then
        Inr (function_stage contains_fn [parameter_stage ''id'', parameter_stage ''lines''])
      else Inl (ExpressionError ''Invalid token''))"

text \<open>A dump of the first three records.\<close>

definition sample_dump :: GoroutineDump where
  "sample_dump = \<lparr>goroutines = [0, 1, 2]\<rparr>"

text \<open>The sample dump after \<^verbatim>\<open>Dedupe\<close>, for two orders of the fingerprint map.\<close>

definition deduped_ba :: "heap \<times> GoroutineDump" where
  "deduped_ba = Dedupe [''bb'', ''aa''] (sample_heap, sample_dump)"

definition deduped_ab :: "heap \<times> GoroutineDump" where
  "deduped_ab = Dedupe [''aa'', ''bb''] (sample_heap, sample_dump)"

section \<open>Properties\<close>

subsection \<open>Matching\<close>

lemma matches_Void [simp]: "\<not> matches Void s"
  by (induction s) auto

lemma matches_Unit [simp]: "matches Unit s \<longleftrightarrow> s = []"
  by (cases s) auto

lemma matches_Byte [simp]: "matches (Byte c) s \<longleftrightarrow> s = [c]"
  by (cases s) auto

lemma matches_Class [simp]: "matches (Class cs) s \<longleftrightarrow> (\<exists>c\<in>set cs. s = [c])"
  by (cases s) auto

lemma matches_Either [simp]: "matches (Either r t) s \<longleftrightarrow> matches r s \<or> matches t s"
  by (induction s arbitrary: r t) auto

lemma matches_Then: "matches (Then r t) s \<longleftrightarrow> (\<exists>u v. s = u @ v \<and> matches r u \<and> matches t v)"
proof (induction s arbitrary: r t)
  case Nil
  then show ?case by simp
next
  case (Cons a s)
  have split: "(\<exists>u v. a # s = u @ v \<and> matches r u \<and> matches t v) \<longleftrightarrow>
      (nullable r \<and> matches t (a # s)) \<or> (\<exists>u v. s = u @ v \<and> matches r (a # u) \<and> matches t v)"
    (is "?L \<longleftrightarrow> ?R")
  proof
    assume ?L
    then obtain u v where uv: "a # s = u @ v" "matches r u" "matches t v" by blast
    show ?R
    proof (cases u)
      case Nil
      with uv show ?thesis by simp
    next
      case (Cons b u')
      with uv show ?thesis by auto
    qed
  next
    assume ?R
    then show ?L
    proof
      assume "nullable r \<and> matches t (a # s)"
      then have "a # s = [] @ (a # s) \<and> matches r [] \<and> matches t (a # s)" by simp
      then show ?L by blast
    next
      assume "\<exists>u v. s = u @ v \<and> matches r (a # u) \<and> matches t v"
      then obtain u v where "s = u @ v" "matches r (a # u)" "matches t v" by blast
      then have "a # s = (a # u) @ v \<and> matches r (a # u) \<and> matches t v" by simp
      then show ?L by blast
    qed
  qed
  show ?case
    unfolding split by (auto simp: Cons.IH)
qed

lemma matches_Many1: "matches (Many1 r) s \<longleftrightarrow> matches (Then r (Many r)) s"
  by (cases s) auto

lemma matches_Many_Cons:
  "matches (Many r) (a # s) \<longleftrightarrow> (\<exists>u v. s = u @ v \<and> matches r (a # u) \<and> matches (Many r) v)"
  by (simp add: matches_Then)

lemma matches_Many_Nil [simp]: "matches (Many r) []"
  by simp

lemma Many_chars:
  assumes r: "\<And>u. matches r u \<Longrightarrow> set u \<subseteq> A"
  shows "matches (Many r) s \<Longrightarrow> set s \<subseteq> A"
proof (induction "length s" arbitrary: s rule: less_induct)
  case less
  show ?case
  proof (cases s)
    case Nil
    then show ?thesis by simp
  next
    case (Cons a s')
    from less.prems have "matches (Many r) (a # s')" unfolding Cons .
    then have "\<exists>u v. s' = u @ v \<and> matches r (a # u) \<and> matches (Many r) v"
      by (rule iffD1[OF matches_Many_Cons])
    then obtain u v where uv: "s' = u @ v" "matches r (a # u)" "matches (Many r) v"
      by blast
    have "length v < length s" using Cons uv by simp
    then have "set v \<subseteq> A" using less.hyps uv(3) by blast
    moreover have "set (a # u) \<subseteq> A" using r uv(2) by blast
    ultimately show ?thesis using Cons uv(1) by auto
  qed
qed

lemma matches_chars: "matches r s \<Longrightarrow> set s \<subseteq> chars_of r"
proof (induction r arbitrary: s)
  case (Then r1 r2)
  then show ?case by (fastforce simp: matches_Then)
next
  case (Many r)
  then show ?case using Many_chars[of r "chars_of r" s] by simp
next
  case (Many1 r)
  from Many1.prems obtain u v where uv: "s = u @ v" "matches r u" "matches (Many r) v"
    by (auto simp: matches_Many1 matches_Then)
  have "set v \<subseteq> chars_of r" using Many_chars[of r "chars_of r" v] Many1.IH uv(3) by simp
  moreover have "set u \<subseteq> chars_of r" using Many1.IH uv(2) by simp
  ultimately show ?case using uv(1) by simp
qed auto

lemma find_at_end_Some:
  "find_at_end r s = Some i \<longleftrightarrow>
     i \<le> length s \<and> matches r (drop i s) \<and> (\<forall>j<i. \<not> matches r (drop j s))"
proof (induction s arbitrary: i)
  case Nil
  then show ?case by auto
next
  case (Cons a s)
  show ?case
  proof (cases "matches r (a # s)")
    case True
    then show ?thesis by (cases i) auto
  next
    case False
    show ?thesis
    proof (cases i)
      case 0
      with False show ?thesis by simp
    next
      case (Suc k)
      have "(\<forall>j<Suc k. \<not> matches r (drop j (a # s))) \<longleftrightarrow> (\<forall>j<k. \<not> matches r (drop j s))"
        using False by (auto simp: less_Suc_eq_0_disj)
      with Suc False Cons.IH[of k] show ?thesis by auto
    qed
  qed
qed

lemma matches_lineWithArgs:
  "matches lineWithArgs w \<longleftrightarrow> (\<exists>b. w = CHR ''('' # b @ [CHR '')''] \<and> matches hexGroups b)"
  unfolding lineWithArgs_def by (auto simp: matches_Then simp del: matches.simps(2))

lemma hexGroups_no_paren:
  assumes "matches hexGroups b"
  shows "CHR ''('' \<notin> set b"
  using matches_chars[OF assms] by (auto simp: hexGroups_def hexGroup_def)

lemma find_lineWithArgs:
  assumes "matches hexGroups a"
  shows "find_at_end lineWithArgs (pre @ ''('' @ a @ '')'') = Some (length pre)"
proof -
  have here: "matches lineWithArgs (drop (length pre) (pre @ ''('' @ a @ '')''))"
    using assms by (simp add: matches_lineWithArgs del: matches.simps(2))
  have before: "\<not> matches lineWithArgs (drop j (pre @ ''('' @ a @ '')''))" if "j < length pre" for j
  proof
    assume m: "matches lineWithArgs (drop j (pre @ ''('' @ a @ '')''))"
    then obtain b where b: "drop j (pre @ ''('' @ a @ '')'') = ''('' @ b @ '')''" "matches hexGroups b"
      unfolding matches_lineWithArgs by auto
    from that obtain c p where p: "drop j pre = c # p" by (cases "drop j pre") auto
    with b(1) that have "p @ ''('' @ a @ '')'' = b @ '')''" by simp
    then have "butlast (p @ ''('' @ a @ '')'') = b" by (metis butlast_snoc)
    then have "b = p @ ''('' @ a" by (simp add: butlast_append)
    then have "CHR ''('' \<in> set b" by simp
    with hexGroups_no_paren[OF b(2)] show False by simp
  qed
  show ?thesis
    unfolding find_at_end_Some using here before by simp
qed

subsection \<open>Appending lines and fingerprints\<close>

lemma regexp_Split_first:
  assumes "find_at_end r s = Some i"
  shows "\<exists>rest. regexp_Split r s = take i s # rest"
proof (cases "s = []")
  case True
  then show ?thesis by (simp add: regexp_Split_def)
next
  case False
  then show ?thesis using assms
    by (simp add: regexp_Split_def FindAllStringIndex_def)
qed

lemma AddLine_unfrozen:
  assumes "\<not> frozen g"
  shows "AddLine g l =
    Ok (g\<lparr>lines := lines g + 1, buf := buf g @ l @ [CHR 0x0A],
          bufScrubbed := bufScrubbed g @ scrub l\<rparr>)"
proof (cases "find_at_end lineWithArgs l")
  case None
  then show ?thesis using assms by (simp add: AddLine_def MatchString_def scrub_def)
next
  case (Some i)
  from regexp_Split_first[OF Some] obtain rest where
    "regexp_Split lineWithArgs l = take i l # rest" by blast
  with Some assms show ?thesis by (simp add: AddLine_def MatchString_def scrub_def)
qed

lemma AddLines_unfrozen:
  "\<not> frozen g \<Longrightarrow>
   AddLines g ls =
     Ok (g\<lparr>lines := lines g + int (length ls),
           buf := buf g @ concat (map (\<lambda>l. l @ [CHR 0x0A]) ls),
           bufScrubbed := bufScrubbed g @ concat (map scrub ls)\<rparr>)"
proof (induction ls arbitrary: g)
  case Nil
  then show ?case by simp
next
  case (Cons l ls)
  let ?g = "g\<lparr>lines := lines g + 1, buf := buf g @ l @ [CHR 0x0A],
          bufScrubbed := bufScrubbed g @ scrub l\<rparr>"
  have "\<not> frozen ?g" using Cons.prems by simp
  from Cons.IH[OF this] AddLine_unfrozen[OF Cons.prems, of l]
  show ?case by (simp add: algebra_simps)
qed

lemma scrub_args:
  assumes "matches hexGroups a"
  shows "scrub (pre @ ''('' @ a @ '')'') = pre @ ''(...)'' @ [CHR 0x0A]"
  using find_lineWithArgs[OF assms, of pre] by (simp add: scrub_def)






lemma NewGoroutine_fresh:
  assumes "NewGoroutine m = Ok g"
  shows "\<not> frozen g \<and> fullHasher g = [] \<and> bufScrubbed g = [] \<and> buf g = [] \<and> lines g = 1
    \<and> duplicates g = [] \<and> scrubbedHash g = [] \<and> header g = m"
  using assms unfolding NewGoroutine_def Let_def
  by (auto split: option.splits list.splits outcome.splits sum.splits if_splits)

lemma matches_Many_append:
  assumes "matches r u" and "matches (Many r) v"
  shows "matches (Many r) (u @ v)"
proof (cases u)
  case Nil
  with assms show ?thesis by simp
next
  case (Cons a u')
  have "\<exists>x y. u' @ v = x @ y \<and> matches r (a # x) \<and> matches (Many r) y"
    using assms Cons by blast
  then have "matches (Many r) (a # u' @ v)" by (rule iffD2[OF matches_Many_Cons])
  with Cons show ?thesis by simp
qed

lemma matches_Many1_iff:
  "matches (Many1 r) s \<longleftrightarrow> (\<exists>u v. s = u @ v \<and> matches r u \<and> matches (Many r) v)"
  by (simp only: matches_Many1 matches_Then)

lemma matches_Many1_Many:
  assumes "matches (Many1 r) s"
  shows "matches (Many r) s"
  using assms matches_Many_append unfolding matches_Many1_iff by blast

lemma matches_Many_Class:
  "set ds \<subseteq> set cs \<Longrightarrow> matches (Many (Class cs)) ds"
proof (induction ds)
  case Nil
  then show ?case by simp
next
  case (Cons d ds)
  then have "matches (Class cs) [d]" and "matches (Many (Class cs)) ds" by simp_all
  from matches_Many_append[OF this] show ?case by simp
qed

lemma matches_Many1_Class:
  assumes "ds \<noteq> []" and "set ds \<subseteq> set cs"
  shows "matches (Many1 (Class cs)) ds"
proof -
  from assms(1) obtain d ds' where ds: "ds = d # ds'" by (cases ds) auto
  with assms(2) have "matches (Class cs) [d]" and "matches (Many (Class cs)) ds'"
    by (simp_all add: matches_Many_Class)
  then have "\<exists>u v. ds = u @ v \<and> matches (Class cs) u \<and> matches (Many (Class cs)) v"
    using ds by (metis append_Cons append_Nil)
  then show ?thesis by (rule iffD2[OF matches_Many1_iff])
qed

lemma matches_Then_Unit [simp]: "matches (Then Unit t) s \<longleftrightarrow> matches t s"
  by (simp add: matches_Then)

lemma matches_Then_Void [simp]: "\<not> matches (Then Void t) s"
  by (simp add: matches_Then)

lemma matches_hexGroup_Cons:
  "matches hexGroup (CHR ''0'' # CHR ''x'' # s) = matches (Many1 (Class ''0123456789abcdef ,'')) s"
  unfolding hexGroup_def by simp

lemma matches_hexGroup:
  assumes "body \<noteq> []" and "set body \<subseteq> set ''0123456789abcdef ,''"
  shows "matches hexGroup (''0x'' @ body)"
proof -
  have m: "matches (Many1 (Class ''0123456789abcdef ,'')) body"
    using assms by (rule matches_Many1_Class)
  have "''0x'' @ body = CHR ''0'' # CHR ''x'' # body" by simp
  then show ?thesis using m by (simp only: matches_hexGroup_Cons)
qed

lemma hex_value_group:
  assumes "hex_value v" and "set sep \<subseteq> set '', ''"
  shows "matches hexGroup (v @ sep)"
proof -
  from assms(1) obtain ds where ds: "v = ''0x'' @ ds" "ds \<noteq> []" "set ds \<subseteq> set ''0123456789abcdef''"
    unfolding hex_value_def by blast
  have c1: "set ''0123456789abcdef'' \<subseteq> set ''0123456789abcdef ,''" by simp
  have c2: "set '', '' \<subseteq> set ''0123456789abcdef ,''" by simp
  have ne: "ds @ sep \<noteq> []" using ds(2) by simp
  have "set (ds @ sep) \<subseteq> set ''0123456789abcdef ,''"
    using subset_trans[OF ds(3) c1] subset_trans[OF assms(2) c2] by (simp only: set_append Un_subset_iff)
  with ne have "matches hexGroup (''0x'' @ (ds @ sep))"
    by (rule matches_hexGroup)
  then show ?thesis unfolding ds(1) by (simp only: append_assoc)
qed

lemma go_argument_lists_match:
  assumes "vs \<noteq> []" and "list_all hex_value vs"
  shows "matches hexGroups (join_args vs)"
  using assms
proof (induction vs rule: join_args.induct)
  case 1
  then show ?case by simp
next
  case (2 v)
  then have "matches hexGroup (v @ [])" by (intro hex_value_group) simp_all
  then have "\<exists>u w. join_args [v] = u @ w \<and> matches hexGroup u \<and> matches (Many hexGroup) w"
    by (metis append_Nil2 join_args.simps(2) matches_Many_Nil)
  then show ?case
    unfolding hexGroups_def by (rule iffD2[OF matches_Many1_iff])
next
  case (3 v w vs)
  then have g: "matches hexGroup (v @ '', '')" by (intro hex_value_group) simp_all
  from 3 have "matches hexGroups (join_args (w # vs))" by simp
  then have "matches (Many hexGroup) (join_args (w # vs))"
    unfolding hexGroups_def by (rule matches_Many1_Many)
  with g have "\<exists>u y. join_args (v # w # vs) = u @ y \<and> matches hexGroup u \<and> matches (Many hexGroup) y"
    by (metis append_assoc join_args.simps(3))
  then show ?case
    unfolding hexGroups_def by (rule iffD2[OF matches_Many1_iff])
qed

lemma differ_only_scrub:
  assumes "differ_only_in_hex_args l1 l2"
  shows "scrub l1 = scrub l2"
  using assms unfolding differ_only_in_hex_args_def by (auto simp: scrub_args simp del: append.simps)

lemma differ_only_scrub_all:
  "list_all2 differ_only_in_hex_args ls1 ls2 \<Longrightarrow> map scrub ls1 = map scrub ls2"
  by (induction rule: list_all2_induct) (simp_all add: differ_only_scrub)

lemma built_record:
  assumes "NewGoroutine m = Ok g"
  shows "AddLines g ls =
     Ok (g\<lparr>lines := 1 + int (length ls),
           buf := concat (map (\<lambda>l. l @ [CHR 0x0A]) ls),
           bufScrubbed := concat (map scrub ls)\<rparr>)"
  using NewGoroutine_fresh[OF assms] AddLines_unfrozen[of g ls] by simp

lemma no_match_empty: "\<not> matches lineWithArgs []"
  unfolding matches_lineWithArgs by simp

lemma ends_in_hex_args_iff:
  "ends_in_hex_args l i \<longleftrightarrow> matches lineWithArgs (drop i l)"
proof (cases "drop i l")
  case Nil
  then show ?thesis using no_match_empty by (simp add: ends_in_hex_args_def del: matches.simps)
next
  case (Cons c w)
  have e: "(\<exists>b. w = b @ [CHR '')''] \<and> matches hexGroups b) \<longleftrightarrow>
        (w \<noteq> [] \<and> last w = CHR '')'' \<and> matches hexGroups (butlast w))"
    by (metis append_butlast_last_id butlast_snoc last_snoc snoc_eq_iff_butlast)
  have "matches lineWithArgs (c # w) \<longleftrightarrow>
        c = CHR ''('' \<and> (\<exists>b. w = b @ [CHR '')''] \<and> matches hexGroups b)"
    unfolding matches_lineWithArgs by auto
  then show ?thesis unfolding Cons e by (simp add: ends_in_hex_args_def Cons del: matches.simps)
qed

lemma filter_upt_Cons:
  assumes "filter P [0..<n] = i # rest"
  shows "P i \<and> i < n \<and> (\<forall>j<i. \<not> P j)"
proof -
  from assms obtain us vs where d: "[0..<n] = us @ i # vs" "\<forall>u\<in>set us. \<not> P u" "P i"
    unfolding filter_eq_Cons_iff by blast
  have len: "length us < n" using arg_cong[OF d(1), of length] by simp
  have "[0..<n] ! length us = i" unfolding d(1) by simp
  with len have i: "i = length us" by simp
  have "take i [0..<n] = us" unfolding d(1) i by simp
  then have "us = [0..<i]" using len i by (simp add: take_upt)
  with d(2) have "\<forall>j<i. \<not> P j" by simp
  with d(3) len i show ?thesis by simp
qed


lemma scrub_spec: "scrub l = spec_scrub_line l @ [CHR 0x0A]"
proof (cases "filter (ends_in_hex_args l) [0..<length l]")
  case Nil
  then have n: "\<forall>i<length l. \<not> matches lineWithArgs (drop i l)"
    by (simp add: filter_empty_conv ends_in_hex_args_iff)
  have "find_at_end lineWithArgs l = None"
  proof (cases "find_at_end lineWithArgs l")
    case (Some i)
    then have "i \<le> length l" "matches lineWithArgs (drop i l)"
      unfolding find_at_end_Some by simp_all
    with n no_match_empty show ?thesis by (cases "i = length l") simp_all
  qed simp
  with Nil show ?thesis by (simp add: scrub_def spec_scrub_line_def)
next
  case (Cons i rest)
  from filter_upt_Cons[OF Cons]
  have "find_at_end lineWithArgs l = Some i"
    unfolding find_at_end_Some by (simp add: ends_in_hex_args_iff)
  with Cons show ?thesis by (simp add: scrub_def spec_scrub_line_def)
qed

lemma concat_scrub: "concat (map scrub ls) = spec_normalized_body ls"
proof -
  have "scrub = (\<lambda>l. spec_scrub_line l @ [CHR 0x0A])" by (rule ext) (rule scrub_spec)
  then show ?thesis by (simp add: spec_normalized_body_def)
qed

lemma AddLine_args:
  assumes "NewGoroutine m = Ok g" and "matches hexGroups a"
  shows "AddLine g (pre @ ''('' @ a @ '')'') =
     Ok (g\<lparr>lines := 2, buf := pre @ ''('' @ a @ '')'' @ [CHR 0x0A],
           bufScrubbed := pre @ ''(...)'' @ [CHR 0x0A]\<rparr>)"
proof -
  from NewGoroutine_fresh[OF assms(1)]
  have f: "\<not> frozen g" "bufScrubbed g = []" "buf g = []" "lines g = 1" by simp_all
  show ?thesis
    unfolding AddLine_unfrozen[OF f(1)] scrub_args[OF assms(2)] f(2,3,4) by simp
qed

text \<open>
  C1. Two records are built by \<^verbatim>\<open>NewGoroutine\<close>, get their body lines by
  \<^verbatim>\<open>AddLine\<close> and are finalized by \<^verbatim>\<open>Freeze\<close>. If their body lines are, line by
  line, identical except for the hexadecimal values inside a trailing parenthesized
  argument group, then appending never fails, and the scrubbed body of each record is the
  normalized body of its lines: every trailing argument group replaced by the placeholder
  \<^verbatim>\<open>(...)\<close>, every other line unchanged. The two scrubbed bodies are equal. No
  fingerprint is stored before finalization; \<^verbatim>\<open>Freeze\<close> marks the record as finalized
  and stores the hex encoding of the scrubbed body followed by the digest of the hasher,
  to which nothing was written; the two fingerprints are equal. On a record that
  \<^verbatim>\<open>NewGoroutine\<close> returned, \<^verbatim>\<open>AddLine\<close> writes \<^verbatim>\<open>pre(...)\<close> to the scrubbed
  body for every line \<^verbatim>\<open>pre(args)\<close> whose \<^verbatim>\<open>args\<close> have the pattern's form.
\<close>

theorem fingerprint_stability:
  assumes "NewGoroutine m1 = Ok g1" and "NewGoroutine m2 = Ok g2"
      and "list_all2 differ_only_in_hex_args ls1 ls2"
  shows "(\<exists>r1 r2.
           AddLines g1 ls1 = Ok r1 \<and> AddLines g2 ls2 = Ok r2 \<and>
           bufScrubbed r1 = spec_normalized_body ls1 \<and>
           bufScrubbed r2 = spec_normalized_body ls2 \<and>
           bufScrubbed r1 = bufScrubbed r2 \<and>
           \<not> frozen r1 \<and> \<not> frozen r2 \<and> scrubbedHash r1 = [] \<and> scrubbedHash r2 = [] \<and>
           Freeze md5 r1 =
             r1\<lparr>frozen := True,
                scrubbedHash := hex_EncodeToString (spec_normalized_body ls1 @ md5 [])\<rparr> \<and>
           Freeze md5 r2 =
             r2\<lparr>frozen := True,
                scrubbedHash := hex_EncodeToString (spec_normalized_body ls2 @ md5 [])\<rparr> \<and>
           scrubbedHash (Freeze md5 r1) = scrubbedHash (Freeze md5 r2)) \<and>
         (\<forall>pre a. matches hexGroups a \<longrightarrow>
            AddLine g1 (pre @ ''('' @ a @ '')'') =
              Ok (g1\<lparr>lines := 2, buf := pre @ ''('' @ a @ '')'' @ [CHR 0x0A],
                     bufScrubbed := pre @ ''(...)'' @ [CHR 0x0A]\<rparr>))"
proof -
  let ?r1 = "g1\<lparr>lines := 1 + int (length ls1),
           buf := concat (map (\<lambda>l. l @ [CHR 0x0A]) ls1),
           bufScrubbed := concat (map scrub ls1)\<rparr>"
  let ?r2 = "g2\<lparr>lines := 1 + int (length ls2),
           buf := concat (map (\<lambda>l. l @ [CHR 0x0A]) ls2),
           bufScrubbed := concat (map scrub ls2)\<rparr>"
  have a1: "AddLines g1 ls1 = Ok ?r1" by (rule built_record[OF assms(1)])
  have a2: "AddLines g2 ls2 = Ok ?r2" by (rule built_record[OF assms(2)])
  have b1: "bufScrubbed ?r1 = spec_normalized_body ls1" by (simp add: concat_scrub)
  have b2: "bufScrubbed ?r2 = spec_normalized_body ls2" by (simp add: concat_scrub)
  have eq: "spec_normalized_body ls1 = spec_normalized_body ls2"
    using differ_only_scrub_all[OF assms(3)] by (simp only: concat_scrub[symmetric])
  have b: "bufScrubbed ?r1 = bufScrubbed ?r2" unfolding b1 b2 by (rule eq)
  have f1: "\<not> frozen ?r1" "scrubbedHash ?r1 = []" "fullHasher ?r1 = []"
    using NewGoroutine_fresh[OF assms(1)] by simp_all
  have f2: "\<not> frozen ?r2" "scrubbedHash ?r2 = []" "fullHasher ?r2 = []"
    using NewGoroutine_fresh[OF assms(2)] by simp_all
  have z1: "Freeze md5 ?r1 =
      ?r1\<lparr>frozen := True,
           scrubbedHash := hex_EncodeToString (spec_normalized_body ls1 @ md5 [])\<rparr>"
    using f1 by (simp add: Freeze_def hash_Sum_def concat_scrub)
  have z2: "Freeze md5 ?r2 =
      ?r2\<lparr>frozen := True,
           scrubbedHash := hex_EncodeToString (spec_normalized_body ls2 @ md5 [])\<rparr>"
    using f2 by (simp add: Freeze_def hash_Sum_def concat_scrub)
  have h: "scrubbedHash (Freeze md5 ?r1) = scrubbedHash (Freeze md5 ?r2)"
    unfolding z1 z2 by (simp add: eq)
  have ex: "\<exists>r1 r2.
           AddLines g1 ls1 = Ok r1 \<and> AddLines g2 ls2 = Ok r2 \<and>
           bufScrubbed r1 = spec_normalized_body ls1 \<and>
           bufScrubbed r2 = spec_normalized_body ls2 \<and>
           bufScrubbed r1 = bufScrubbed r2 \<and>
           \<not> frozen r1 \<and> \<not> frozen r2 \<and> scrubbedHash r1 = [] \<and> scrubbedHash r2 = [] \<and>
           Freeze md5 r1 =
             r1\<lparr>frozen := True,
                scrubbedHash := hex_EncodeToString (spec_normalized_body ls1 @ md5 [])\<rparr> \<and>
           Freeze md5 r2 =
             r2\<lparr>frozen := True,
                scrubbedHash := hex_EncodeToString (spec_normalized_body ls2 @ md5 [])\<rparr> \<and>
           scrubbedHash (Freeze md5 r1) = scrubbedHash (Freeze md5 r2)"
    by (rule exI[of _ ?r1], rule exI[of _ ?r2])
       (intro conjI; fact a1 a2 b1 b2 b f1(1) f2(1) f1(2) f2(2) z1 z2 h)
  have al: "\<forall>pre a. matches hexGroups a \<longrightarrow>
            AddLine g1 (pre @ ''('' @ a @ '')'') =
              Ok (g1\<lparr>lines := 2, buf := pre @ ''('' @ a @ '')'' @ [CHR 0x0A],
                     bufScrubbed := pre @ ''(...)'' @ [CHR 0x0A]\<rparr>)"
    using AddLine_args[OF assms(1)] by blast
  from ex al show ?thesis by (rule conjI)
qed


subsection \<open>A finalized record\<close>

text \<open>
  C8. Appending a body line to a finalized record returns normally and leaves every field
  of the record as it was. \<^verbatim>\<open>Freeze\<close> is idempotent: on a record that is not yet
  finalized it sets the flag and stores the fingerprint, computed from the scrubbed body;
  on a finalized record it changes nothing, so a second call changes nothing.
\<close>

theorem finalized_record_is_immutable:
  "(frozen g \<longrightarrow> AddLine g l = Ok g \<and> Freeze md5 g = g) \<and>
   (\<not> frozen g \<longrightarrow>
      Freeze md5 g =
        g\<lparr>frozen := True,
          scrubbedHash := hex_EncodeToString (bufScrubbed g @ md5 (fullHasher g))\<rparr>) \<and>
   Freeze md5 (Freeze md5 g) = Freeze md5 g"
  by (simp add: AddLine_def Freeze_def hash_Sum_def)

theorem finalized_record_is_immutable_witness:
  "frozen (Freeze (\<lambda>_. md5_of_empty) sample_record) \<and>
   AddLine (Freeze (\<lambda>_. md5_of_empty) sample_record) ''main.main()'' =
     Ok (Freeze (\<lambda>_. md5_of_empty) sample_record) \<and>
   Freeze (\<lambda>_. md5_of_empty) (Freeze (\<lambda>_. md5_of_empty) sample_record) =
     Freeze (\<lambda>_. md5_of_empty) sample_record \<and>
   scrubbedHash (Freeze (\<lambda>_. md5_of_empty) sample_record) = ''d41d8cd98f00b204e9800998ecf8427e'' \<and>
   \<not> frozen sample_record \<and>
   Freeze (\<lambda>_. md5_of_empty) sample_record =
     sample_record\<lparr>frozen := True,
       scrubbedHash := hex_EncodeToString (bufScrubbed sample_record @ md5_of_empty)\<rparr>"
proof -
  have nf: "\<not> frozen sample_record" by (simp add: sample_record_def)
  have fr: "frozen (Freeze (\<lambda>_. md5_of_empty) sample_record)"
    by (simp add: Freeze_def sample_record_def)
  have h: "scrubbedHash (Freeze (\<lambda>_. md5_of_empty) sample_record) = ''d41d8cd98f00b204e9800998ecf8427e''"
    by (simp add: Freeze_def sample_record_def hash_Sum_def md5_of_empty_def
        hex_EncodeToString_def hextable_def)
  from fr
    finalized_record_is_immutable
      [of "Freeze (\<lambda>_. md5_of_empty) sample_record" "''main.main()''" "\<lambda>_. md5_of_empty"]
  have a: "AddLine (Freeze (\<lambda>_. md5_of_empty) sample_record) ''main.main()'' =
      Ok (Freeze (\<lambda>_. md5_of_empty) sample_record)"
    and i: "Freeze (\<lambda>_. md5_of_empty) (Freeze (\<lambda>_. md5_of_empty) sample_record) =
      Freeze (\<lambda>_. md5_of_empty) sample_record"
    by simp_all
  from nf
    finalized_record_is_immutable [of sample_record "''main.main()''" "\<lambda>_. md5_of_empty"]
  have u: "Freeze (\<lambda>_. md5_of_empty) sample_record =
     sample_record\<lparr>frozen := True,
       scrubbedHash := hex_EncodeToString (bufScrubbed sample_record @ md5_of_empty)\<rparr>"
    by (simp add: sample_record_def)
  show ?thesis by (intro conjI) (fact fr a i h nf u)+
qed

subsection \<open>Evaluation at concrete inputs\<close>

lemma trim_left_unfold:
  "trim_left n s =
     (if n = 0 then s else if leading_space s = 0 then s
      else trim_left (n - 1) (drop (leading_space s) s))"
  by (cases n) simp_all

lemma trim_right_unfold:
  "trim_right n s =
     (if n = 0 then s else if trailing_space s = 0 then s
      else trim_right (n - 1) (take (length s - trailing_space s) s))"
  by (cases n) simp_all

lemmas eval_simps =
  NewGoroutine_def slice_def strings_TrimSpace_def leading_space_def trailing_space_def
  space_runes_def strconv_Atoi_def is_digit_def digit_val_def parse_duration_def
  durationPattern_def MetaState_def MetaDuration_def trim_left_unfold trim_right_unfold

lemma NewGoroutine_sample: "NewGoroutine ''goroutine 1 [running]:'' = Ok sample_record"
  by (simp add: eval_simps sample_record_def)

lemma NewGoroutine_sample2: "NewGoroutine ''goroutine 2 [running]:'' = Ok sample_record2"
  by (simp add: eval_simps sample_record2_def)

lemma NewGoroutine_with_duration:
  "NewGoroutine ''goroutine 42 [chan receive, 12 minutes]:'' =
     Ok \<lparr>goid = 42, header = ''goroutine 42 [chan receive, 12 minutes]:'', lines = 1,
         duration = 12,
         metas = [MetaState \<mapsto> ''chan receive'', MetaDuration \<mapsto> ''12 minutes''],
         scrubbedHash = [], fullHasher = [], bufScrubbed = [], duplicates = [],
         frozen = False, buf = []\<rparr>"
  by (simp add: eval_simps)

lemma sample_lines_differ_only_in_hex_args:
  "differ_only_in_hex_args ''main.foo(0x1, 0x2)'' ''main.foo(0xabc, 0xdef)''"
proof -
  have a: "matches hexGroups ''0x1, 0x2''" by (simp add: hexGroups_def hexGroup_def)
  have b: "matches hexGroups ''0xabc, 0xdef''" by (simp add: hexGroups_def hexGroup_def)
  have "''main.foo(0x1, 0x2)'' = ''main.foo'' @ ''('' @ ''0x1, 0x2'' @ '')''" by simp
  moreover have "''main.foo(0xabc, 0xdef)'' = ''main.foo'' @ ''('' @ ''0xabc, 0xdef'' @ '')''"
    by simp
  ultimately show ?thesis unfolding differ_only_in_hex_args_def using a b by blast
qed

lemma spec_sample:
  "spec_normalized_body [''main.foo(0x1, 0x2)'', ''main.main()''] =
     ''main.foo(...)'' @ [CHR 0x0A] @ ''main.main()'' @ [CHR 0x0A]"
  by code_simp

lemma spec_sample2:
  "spec_normalized_body [''main.foo(0xabc, 0xdef)'', ''main.main()''] =
     ''main.foo(...)'' @ [CHR 0x0A] @ ''main.main()'' @ [CHR 0x0A]"
  by code_simp

lemma sample_args: "matches hexGroups ''0x1, 0x2''"
  by (simp add: hexGroups_def hexGroup_def)

lemma sample_hex:
  "hex_EncodeToString ((''main.foo(...)'' @ [CHR 0x0A] @ ''main.main()'' @ [CHR 0x0A]) @ md5_of_empty) =
     ''6d61696e2e666f6f282e2e2e290a6d61696e2e6d61696e28290ad41d8cd98f00b204e9800998ecf8427e''"
  by (simp add: md5_of_empty_def hex_EncodeToString_def hextable_def)

theorem fingerprint_stability_witness:
  "NewGoroutine ''goroutine 1 [running]:'' = Ok sample_record \<and>
   NewGoroutine ''goroutine 2 [running]:'' = Ok sample_record2 \<and>
   list_all2 differ_only_in_hex_args
     [''main.foo(0x1, 0x2)'', ''main.main()''] [''main.foo(0xabc, 0xdef)'', ''main.main()''] \<and>
   matches hexGroups ''0x1, 0x2'' \<and>
   (\<exists>r1 r2.
      AddLines sample_record [''main.foo(0x1, 0x2)'', ''main.main()''] = Ok r1 \<and>
      AddLines sample_record2 [''main.foo(0xabc, 0xdef)'', ''main.main()''] = Ok r2 \<and>
      bufScrubbed r1 = ''main.foo(...)'' @ [CHR 0x0A] @ ''main.main()'' @ [CHR 0x0A] \<and>
      bufScrubbed r2 = ''main.foo(...)'' @ [CHR 0x0A] @ ''main.main()'' @ [CHR 0x0A] \<and>
      \<not> frozen r1 \<and> \<not> frozen r2 \<and> scrubbedHash r1 = [] \<and> scrubbedHash r2 = [] \<and>
      frozen (Freeze (\<lambda>_. md5_of_empty) r1) \<and> frozen (Freeze (\<lambda>_. md5_of_empty) r2) \<and>
      scrubbedHash (Freeze (\<lambda>_. md5_of_empty) r1) =
        ''6d61696e2e666f6f282e2e2e290a6d61696e2e6d61696e28290ad41d8cd98f00b204e9800998ecf8427e'' \<and>
      scrubbedHash (Freeze (\<lambda>_. md5_of_empty) r2) =
        ''6d61696e2e666f6f282e2e2e290a6d61696e2e6d61696e28290ad41d8cd98f00b204e9800998ecf8427e'') \<and>
   AddLine sample_record ''main.foo(0x1, 0x2)'' =
     Ok (sample_record\<lparr>lines := 2, buf := ''main.foo(0x1, 0x2)'' @ [CHR 0x0A],
           bufScrubbed := ''main.foo(...)'' @ [CHR 0x0A]\<rparr>)"
proof -
  have rel: "list_all2 differ_only_in_hex_args
     [''main.foo(0x1, 0x2)'', ''main.main()''] [''main.foo(0xabc, 0xdef)'', ''main.main()'']"
    using sample_lines_differ_only_in_hex_args by (simp add: differ_only_in_hex_args_def)
  note t = fingerprint_stability
    [OF NewGoroutine_sample NewGoroutine_sample2 rel, of "\<lambda>_. md5_of_empty",
     unfolded spec_sample spec_sample2 sample_hex]
  from t[THEN conjunct1] obtain r1 r2 where
    r: "AddLines sample_record [''main.foo(0x1, 0x2)'', ''main.main()''] = Ok r1"
       "AddLines sample_record2 [''main.foo(0xabc, 0xdef)'', ''main.main()''] = Ok r2"
       "bufScrubbed r1 = ''main.foo(...)'' @ [CHR 0x0A] @ ''main.main()'' @ [CHR 0x0A]"
       "bufScrubbed r2 = ''main.foo(...)'' @ [CHR 0x0A] @ ''main.main()'' @ [CHR 0x0A]"
       "\<not> frozen r1" "\<not> frozen r2" "scrubbedHash r1 = []" "scrubbedHash r2 = []"
    and z: "Freeze (\<lambda>_. md5_of_empty) r1 =
         r1\<lparr>frozen := True,
              scrubbedHash :=
                ''6d61696e2e666f6f282e2e2e290a6d61696e2e6d61696e28290ad41d8cd98f00b204e9800998ecf8427e''\<rparr>"
       "Freeze (\<lambda>_. md5_of_empty) r2 =
         r2\<lparr>frozen := True,
              scrubbedHash :=
                ''6d61696e2e666f6f282e2e2e290a6d61696e2e6d61696e28290ad41d8cd98f00b204e9800998ecf8427e''\<rparr>"
    by (elim exE conjE) (rule that; assumption)
  have fz: "frozen (Freeze (\<lambda>_. md5_of_empty) r1)" "frozen (Freeze (\<lambda>_. md5_of_empty) r2)"
    "scrubbedHash (Freeze (\<lambda>_. md5_of_empty) r1) =
        ''6d61696e2e666f6f282e2e2e290a6d61696e2e6d61696e28290ad41d8cd98f00b204e9800998ecf8427e''"
    "scrubbedHash (Freeze (\<lambda>_. md5_of_empty) r2) =
        ''6d61696e2e666f6f282e2e2e290a6d61696e2e6d61696e28290ad41d8cd98f00b204e9800998ecf8427e''"
    unfolding z by simp_all
  have ex: "\<exists>r1 r2.
      AddLines sample_record [''main.foo(0x1, 0x2)'', ''main.main()''] = Ok r1 \<and>
      AddLines sample_record2 [''main.foo(0xabc, 0xdef)'', ''main.main()''] = Ok r2 \<and>
      bufScrubbed r1 = ''main.foo(...)'' @ [CHR 0x0A] @ ''main.main()'' @ [CHR 0x0A] \<and>
      bufScrubbed r2 = ''main.foo(...)'' @ [CHR 0x0A] @ ''main.main()'' @ [CHR 0x0A] \<and>
      \<not> frozen r1 \<and> \<not> frozen r2 \<and> scrubbedHash r1 = [] \<and> scrubbedHash r2 = [] \<and>
      frozen (Freeze (\<lambda>_. md5_of_empty) r1) \<and> frozen (Freeze (\<lambda>_. md5_of_empty) r2) \<and>
      scrubbedHash (Freeze (\<lambda>_. md5_of_empty) r1) =
        ''6d61696e2e666f6f282e2e2e290a6d61696e2e6d61696e28290ad41d8cd98f00b204e9800998ecf8427e'' \<and>
      scrubbedHash (Freeze (\<lambda>_. md5_of_empty) r2) =
        ''6d61696e2e666f6f282e2e2e290a6d61696e2e6d61696e28290ad41d8cd98f00b204e9800998ecf8427e''"
    by (rule exI[of _ r1], rule exI[of _ r2]) (intro conjI; fact r fz)
  from t[THEN conjunct2, rule_format, OF sample_args, of "''main.foo''"]
  have al: "AddLine sample_record ''main.foo(0x1, 0x2)'' =
     Ok (sample_record\<lparr>lines := 2, buf := ''main.foo(0x1, 0x2)'' @ [CHR 0x0A],
           bufScrubbed := ''main.foo(...)'' @ [CHR 0x0A]\<rparr>)"
    by simp
  show ?thesis
    by (intro conjI) (fact NewGoroutine_sample NewGoroutine_sample2 rel sample_args ex al)+
qed


lemma sample_fingerprint:
  "(case AddLines sample_record [''main.foo(0x1, 0x2)''] of
      Ok r \<Rightarrow> scrubbedHash (Freeze (\<lambda>_. md5_of_empty) r)
    | _ \<Rightarrow> []) =
   ''6d61696e2e666f6f282e2e2e290ad41d8cd98f00b204e9800998ecf8427e''"
proof -
  have nf: "\<not> frozen sample_record" by (simp add: sample_record_def)
  have sc: "scrub ''main.foo(0x1, 0x2)'' = ''main.foo(...)'' @ [CHR 0x0A]"
    by (simp add: scrub_def lineWithArgs_def hexGroups_def hexGroup_def)
  show ?thesis
    unfolding AddLines_unfrozen[OF nf]
    by (simp add: sc sample_record_def Freeze_def hash_Sum_def md5_of_empty_def
        hex_EncodeToString_def hextable_def)
qed

subsection \<open>The constructor\<close>

lemma strings_Index_ge: "- 1 \<le> strings_Index s sub"
  by (induction s) (auto simp: Let_def)

lemma strings_Index_le: "strings_Index s sub \<le> int (length s)"
  by (induction s) (auto simp: Let_def)

lemma strings_Split_nonempty: "strings_Split s c \<noteq> []"
  by (induction s) (auto split: list.splits)

lemma matches_lit: "matches (lit s) w \<longleftrightarrow> w = s"
proof (induction s arbitrary: w)
  case Nil
  then show ?case by simp
next
  case (Cons c cs)
  have "matches (lit (c # cs)) w \<longleftrightarrow> (\<exists>u v. w = u @ v \<and> matches (Byte c) u \<and> matches (lit cs) v)"
    by (simp only: lit.simps matches_Then)
  also have "\<dots> \<longleftrightarrow> w = c # cs" by (auto simp: Cons.IH)
  finally show ?case .
qed

lemma durationPattern_length:
  assumes "matches durationPattern v"
  shows "8 \<le> length v"
proof -
  from assms obtain u w where "v = u @ w" "matches (lit '' minutes'') w"
    unfolding durationPattern_def matches_Then by blast
  then show ?thesis by (simp only: matches_lit) simp
qed

lemma parse_duration_returns: "\<exists>d. parse_duration v = Ok d"
proof (cases "matches durationPattern v")
  case True
  from durationPattern_length[OF True] have "slice v 0 (int (length v) - 8) \<noteq> None"
    by (simp add: slice_def)
  with True show ?thesis by (auto simp: parse_duration_def split: sum.splits)
next
  case False
  then show ?thesis by (simp add: parse_duration_def)
qed

lemma NewGoroutine_panics:
  assumes "\<not> header_shape m"
  shows "NewGoroutine m = Panic"
proof (cases "slice m (strings_Index m ''['' + 1) (int (length m) - 2)")
  case None
  then show ?thesis by (simp add: NewGoroutine_def)
next
  case (Some inner)
  then have "strings_Index m ''['' + 3 \<le> int (length m)"
    by (auto simp: slice_def split: if_splits)
  with assms have "\<not> 9 \<le> strings_Index m ''[''" by (simp add: header_shape_def)
  then have id: "slice m 9 (strings_Index m ''['') = None" by (simp add: slice_def)
  obtain d where d: "\<And>v. parse_duration v = Ok (d v)" using parse_duration_returns by metis
  obtain p0 ps where sp: "strings_Split inner (CHR '','') = p0 # ps"
    using strings_Split_nonempty[of inner "CHR '',''"] by (cases "strings_Split inner (CHR '','')") auto
  show ?thesis
    unfolding NewGoroutine_def Let_def by (simp add: Some sp id d)
qed

lemma NewGoroutine_shaped:
  assumes "header_shape m"
  shows "\<exists>d ms. NewGoroutine m =
    (case strconv_Atoi (identity_text m) of
       Inl e \<Rightarrow> Error e
     | Inr n \<Rightarrow> Ok \<lparr>goid = n, header = m, lines = 1, duration = d, metas = ms,
                    scrubbedHash = [], fullHasher = [], bufScrubbed = [], duplicates = [],
                    frozen = False, buf = []\<rparr>)"
proof -
  from assms have i9: "9 \<le> strings_Index m ''[''" and i3: "strings_Index m ''['' + 3 \<le> int (length m)"
    by (simp_all add: header_shape_def)
  from i9 i3 obtain inner where inner: "slice m (strings_Index m ''['' + 1) (int (length m) - 2) = Some inner"
    by (simp add: slice_def)
  from i9 strings_Index_le[of m "''[''"]
  have id: "slice m 9 (strings_Index m ''['') = Some (take (nat (strings_Index m ''['') - 9) (drop 9 m))"
    by (simp add: slice_def)
  obtain d where d: "\<And>v. parse_duration v = Ok (d v)" using parse_duration_returns by metis
  obtain p0 ps where sp: "strings_Split inner (CHR '','') = p0 # ps"
    using strings_Split_nonempty[of inner "CHR '',''"] by (cases "strings_Split inner (CHR '','')") auto
  show ?thesis
    unfolding NewGoroutine_def Let_def identity_text_def
    by (cases "strconv_Atoi (strings_TrimSpace (take (nat (strings_Index m ''['') - 9) (drop 9 m)))")
       (simp_all add: inner sp id d)
qed

lemma fold_digits_ge: "k \<le> foldl (\<lambda>n c. n * 10 + digit_val c) k ds"
proof (induction ds arbitrary: k)
  case Nil
  then show ?case by simp
next
  case (Cons c ds)
  have "k \<le> k * 10 + digit_val c" by simp
  also have "\<dots> \<le> foldl (\<lambda>n c. n * 10 + digit_val c) (k * 10 + digit_val c) ds" by (rule Cons.IH)
  finally show ?case by simp
qed

lemma parse_digits_Inr:
  "parse_digits k ds = Inr v \<longleftrightarrow>
     list_all is_digit ds \<and> v = foldl (\<lambda>n c. n * 10 + digit_val c) k ds \<and> (ds \<noteq> [] \<longrightarrow> v < 2 ^ 64)"
proof (induction ds arbitrary: k)
  case Nil
  then show ?case by auto
next
  case (Cons c ds)
  show ?case
  proof (cases "is_digit c \<and> k * 10 + digit_val c < 2 ^ 64")
    case True
    then show ?thesis using Cons.IH[of "k * 10 + digit_val c"] fold_digits_ge[of "k * 10 + digit_val c" ds]
      by (cases ds) auto
  next
    case False
    then show ?thesis using fold_digits_ge[of "k * 10 + digit_val c" ds]
      by auto
  qed
qed

lemma parse_digits_digits:
  "list_all is_digit ds \<Longrightarrow> k < 2 ^ 64 \<Longrightarrow>
   parse_digits k ds =
     (if foldl (\<lambda>n c. n * 10 + digit_val c) k ds < 2 ^ 64
      then Inr (foldl (\<lambda>n c. n * 10 + digit_val c) k ds) else Inl ErrRange)"
proof (induction ds arbitrary: k)
  case Nil
  then show ?case by simp
next
  case (Cons c ds)
  let ?k = "k * 10 + digit_val c"
  from Cons.prems have c: "is_digit c" and ds: "list_all is_digit ds" by simp_all
  show ?case
  proof (cases "?k < 2 ^ 64")
    case True
    have "parse_digits k (c # ds) = parse_digits ?k ds" using c True by simp
    also note Cons.IH[OF ds True]
    finally show ?thesis by simp
  next
    case False
    then have "parse_digits k (c # ds) = Inl ErrRange" using c by simp
    moreover have "\<not> foldl (\<lambda>n c. n * 10 + digit_val c) ?k ds < 2 ^ 64"
      using fold_digits_ge[of ?k ds] False by linarith
    ultimately show ?thesis by simp
  qed
qed

lemma digit_not_sign: "is_digit c \<Longrightarrow> c \<noteq> CHR ''+'' \<and> c \<noteq> CHR ''-''"
  by (auto simp: is_digit_def)

lemma Atoi_unsigned:
  assumes "ds \<noteq> []" and "list_all is_digit ds"
  shows "strconv_Atoi ds =
    (if decimal_value ds < 2 ^ 63 then Inr (int (decimal_value ds))
     else Inl (NumError ''Atoi'' ds ErrRange))"
proof -
  from assms obtain c cs where ds: "ds = c # cs" "is_digit c" by (cases ds) auto
  from digit_not_sign[OF ds(2)] ds(1) have hd: "hd ds \<noteq> CHR ''+''" "hd ds \<noteq> CHR ''-''" by simp_all
  have lt: "decimal_value ds < 2 ^ 63 \<Longrightarrow> decimal_value ds < 2 ^ 64"
    by (rule less_trans[of _ "2 ^ 63"]) simp_all
  show ?thesis
    unfolding strconv_Atoi_def Let_def
    using assms hd lt
    by (auto simp: parse_digits_digits decimal_value_def not_less)
qed

lemma Atoi_plus:
  assumes "ds \<noteq> []" and "list_all is_digit ds"
  shows "strconv_Atoi (CHR ''+'' # ds) =
    (if decimal_value ds < 2 ^ 63 then Inr (int (decimal_value ds))
     else Inl (NumError ''Atoi'' (CHR ''+'' # ds) ErrRange))"
proof -
  have lt: "decimal_value ds < 2 ^ 63 \<Longrightarrow> decimal_value ds < 2 ^ 64"
    by (rule less_trans[of _ "2 ^ 63"]) simp_all
  show ?thesis
    unfolding strconv_Atoi_def Let_def
    using assms lt
    by (auto simp: parse_digits_digits decimal_value_def not_less)
qed

lemma Atoi_minus:
  assumes "ds \<noteq> []" and "list_all is_digit ds"
  shows "strconv_Atoi (CHR ''-'' # ds) =
    (if decimal_value ds \<le> 2 ^ 63 then Inr (- int (decimal_value ds))
     else Inl (NumError ''Atoi'' (CHR ''-'' # ds) ErrRange))"
proof -
  have lt: "decimal_value ds \<le> 2 ^ 63 \<Longrightarrow> decimal_value ds < 2 ^ 64"
    by (rule le_less_trans[of _ "2 ^ 63"]) simp_all
  show ?thesis
    unfolding strconv_Atoi_def Let_def
    using assms lt
    by (auto simp: parse_digits_digits decimal_value_def not_less not_le)
qed

lemma Atoi_Inr_shape:
  assumes "strconv_Atoi s = Inr n"
  shows "\<exists>sign ds. s = sign @ ds \<and> (sign = [] \<or> sign = ''+'' \<or> sign = ''-'') \<and>
           ds \<noteq> [] \<and> list_all is_digit ds"
proof -
  define body where "body = (if s \<noteq> [] \<and> (hd s = CHR ''+'' \<or> hd s = CHR ''-'') then tl s else s)"
  from assms have ne: "body \<noteq> []"
    unfolding strconv_Atoi_def Let_def body_def by (auto split: if_splits)
  from assms obtain un where "parse_digits 0 body = Inr un"
    unfolding strconv_Atoi_def Let_def body_def
    by (auto split: if_splits sum.splits num_err.splits)
  then have dig: "list_all is_digit body" by (simp add: parse_digits_Inr)
  have "s = [] @ body \<or> s = ''+'' @ body \<or> s = ''-'' @ body"
    unfolding body_def by (cases s) auto
  with ne dig show ?thesis by blast
qed

lemma strconv_Atoi_Inr: "strconv_Atoi s = Inr n \<longleftrightarrow> integer_text s n"
proof
  assume a: "strconv_Atoi s = Inr n"
  from Atoi_Inr_shape[OF a] obtain sign ds where
    s: "s = sign @ ds" "sign = [] \<or> sign = ''+'' \<or> sign = ''-''" "ds \<noteq> []" "list_all is_digit ds"
    by blast
  from s(2) show "integer_text s n"
  proof (elim disjE)
    assume "sign = []"
    with a s Atoi_unsigned[OF s(3,4)] show ?thesis
      unfolding integer_text_def by (intro exI[of _ "[]"] exI[of _ ds]) (auto split: if_splits)
  next
    assume "sign = ''+''"
    with a s Atoi_plus[OF s(3,4)] show ?thesis
      unfolding integer_text_def by (intro exI[of _ "''+''"] exI[of _ ds]) (auto split: if_splits)
  next
    assume "sign = ''-''"
    with a s Atoi_minus[OF s(3,4)] show ?thesis
      unfolding integer_text_def by (intro exI[of _ "''-''"] exI[of _ ds]) (auto split: if_splits)
  qed
next
  assume "integer_text s n"
  then obtain sign ds where
    s: "s = sign @ ds" "sign = [] \<or> sign = ''+'' \<or> sign = ''-''" "ds \<noteq> []" "list_all is_digit ds"
    and n: "n = (if sign = ''-'' then - int (decimal_value ds) else int (decimal_value ds))"
      "- (2 ^ 63) \<le> n" "n < 2 ^ 63"
    unfolding integer_text_def by blast
  from s(2) show "strconv_Atoi s = Inr n"
  proof (elim disjE)
    assume "sign = []"
    with s n Atoi_unsigned[OF s(3,4)] show ?thesis by auto
  next
    assume "sign = ''+''"
    with s n Atoi_plus[OF s(3,4)] show ?thesis by auto
  next
    assume "sign = ''-''"
    with s n Atoi_minus[OF s(3,4)] show ?thesis by auto
  qed
qed


text \<open>
  C7 as stated fails: on the empty line, and on a line without a bracket, the constructor
  panics (a slice out of range) instead of returning a record or an error.
\<close>

theorem NewGoroutine_panics_on_malformed_line:
  "NewGoroutine [] = Panic \<and> NewGoroutine ''goroutine 7 running'' = Panic"
  by (simp add: NewGoroutine_def slice_def)

text \<open>
  C7, amended. On a metadata line whose first \<^verbatim>\<open>[\<close> stands at byte 9 or later and
  is followed by at least two bytes, the constructor does not panic: it returns an error
  exactly when the text between byte 9 and the bracket, white space trimmed, is not the
  decimal text of a 64-bit integer, and otherwise a record with that identity. On every
  other line it panics.
\<close>

theorem NewGoroutine_on_header_lines:
  "(header_shape m \<longrightarrow>
      NewGoroutine m \<noteq> Panic \<and>
      ((\<exists>e. NewGoroutine m = Error e) \<longleftrightarrow> (\<nexists>n. integer_text (identity_text m) n)) \<and>
      (\<forall>n. integer_text (identity_text m) n \<longrightarrow>
         (\<exists>g. NewGoroutine m = Ok g \<and> goid g = n \<and> header g = m))) \<and>
   (\<not> header_shape m \<longrightarrow> NewGoroutine m = Panic)"
proof (intro conjI impI)
  assume h: "header_shape m"
  from NewGoroutine_shaped[OF h] obtain d ms where r: "NewGoroutine m =
    (case strconv_Atoi (identity_text m) of
       Inl e \<Rightarrow> Error e
     | Inr n \<Rightarrow> Ok \<lparr>goid = n, header = m, lines = 1, duration = d, metas = ms,
                    scrubbedHash = [], fullHasher = [], bufScrubbed = [], duplicates = [],
                    frozen = False, buf = []\<rparr>)"
    by blast
  show "NewGoroutine m \<noteq> Panic"
    unfolding r by (simp split: sum.splits)
  show "(\<exists>e. NewGoroutine m = Error e) \<longleftrightarrow> (\<nexists>n. integer_text (identity_text m) n)"
    unfolding r strconv_Atoi_Inr[symmetric] by (cases "strconv_Atoi (identity_text m)") simp_all
  show "\<forall>n. integer_text (identity_text m) n \<longrightarrow>
         (\<exists>g. NewGoroutine m = Ok g \<and> goid g = n \<and> header g = m)"
    unfolding r strconv_Atoi_Inr[symmetric] by simp
next
  assume "\<not> header_shape m"
  then show "NewGoroutine m = Panic" by (rule NewGoroutine_panics)
qed

theorem NewGoroutine_on_header_lines_witness:
  "header_shape ''goroutine 1 [running]:'' \<and>
   integer_text (identity_text ''goroutine 1 [running]:'') 1 \<and>
   (\<exists>g. NewGoroutine ''goroutine 1 [running]:'' = Ok g \<and> goid g = 1 \<and>
        header g = ''goroutine 1 [running]:'') \<and>
   header_shape ''goroutine x [running]:'' \<and>
   (\<nexists>n. integer_text (identity_text ''goroutine x [running]:'') n) \<and>
   (\<exists>e. NewGoroutine ''goroutine x [running]:'' = Error e) \<and>
   \<not> header_shape ''goroutine 7 running'' \<and>
   NewGoroutine ''goroutine 7 running'' = Panic"
proof -
  have s1: "header_shape ''goroutine 1 [running]:''" by (simp add: header_shape_def)
  have i1: "identity_text ''goroutine 1 [running]:'' = ''1''"
    by (simp add: identity_text_def eval_simps)
  have t1: "integer_text (identity_text ''goroutine 1 [running]:'') 1"
    unfolding i1 strconv_Atoi_Inr[symmetric] by (simp add: eval_simps)
  have s2: "header_shape ''goroutine x [running]:''" by (simp add: header_shape_def)
  have i2: "identity_text ''goroutine x [running]:'' = ''x''"
    by (simp add: identity_text_def eval_simps)
  have t2: "\<nexists>n. integer_text (identity_text ''goroutine x [running]:'') n"
    unfolding i2 strconv_Atoi_Inr[symmetric] by (simp add: eval_simps)
  have s3: "\<not> header_shape ''goroutine 7 running''" by (simp add: header_shape_def)
  from s1 t1 s2 t2 s3
    NewGoroutine_on_header_lines [of "''goroutine 1 [running]:''"]
    NewGoroutine_on_header_lines [of "''goroutine x [running]:''"]
    NewGoroutine_on_header_lines [of "''goroutine 7 running''"]
  show ?thesis by blast
qed

subsection \<open>Filtering by a condition\<close>

lemma loop_keep:
  "\<forall>g\<in>set gs. boolean_on x h g \<Longrightarrow>
   condition_loop x (\<lambda>i g passed. if passed then Some g else None) h i gs acc =
     Ok (acc @ filter (passes x h) gs)"
proof (induction gs arbitrary: i acc)
  case Nil
  then show ?case by simp
next
  case (Cons g gs)
  from Cons.prems obtain b where b: "x (params_of (h g)) = Ok (VBool b)"
    by (auto simp: boolean_on_def)
  from Cons.prems have rest: "\<forall>g\<in>set gs. boolean_on x h g" by simp
  show ?case using b Cons.IH[OF rest] by (simp add: passes_def)
qed

lemma loop_delete:
  "\<forall>g\<in>set gs. boolean_on x h g \<Longrightarrow>
   condition_loop x (\<lambda>i g passed. if \<not> passed then Some g else None) h i gs acc =
     Ok (acc @ filter (\<lambda>g. \<not> passes x h g) gs)"
proof (induction gs arbitrary: i acc)
  case Nil
  then show ?case by simp
next
  case (Cons g gs)
  from Cons.prems obtain b where b: "x (params_of (h g)) = Ok (VBool b)"
    by (auto simp: boolean_on_def)
  from Cons.prems have rest: "\<forall>g\<in>set gs. boolean_on x h g" by simp
  show ?case using b Cons.IH[OF rest] by (simp add: passes_def)
qed

lemma loop_none:
  "\<forall>g\<in>set gs. boolean_on x h g \<Longrightarrow>
   condition_loop x (\<lambda>i g passed. None) h i gs acc = Ok acc"
proof (induction gs arbitrary: i acc)
  case Nil
  then show ?case by simp
next
  case (Cons g gs)
  from Cons.prems obtain b where b: "x (params_of (h g)) = Ok (VBool b)"
    by (auto simp: boolean_on_def)
  from Cons.prems have rest: "\<forall>g\<in>set gs. boolean_on x h g" by simp
  show ?case using b Cons.IH[OF rest] by simp
qed

lemma loop_stops:
  assumes "\<forall>q\<in>set gs1. boolean_on x h q" and "\<not> boolean_on x h g"
  shows "condition_loop x cb h i (gs1 @ g # gs2) acc = stop_result (x (params_of (h g)))"
  using assms(1)
proof (induction gs1 arbitrary: i acc)
  case Nil
  from assms(2) show ?case
    by (auto simp: boolean_on_def stop_result_def split: outcome.splits val.splits)
next
  case (Cons q gs1)
  from Cons.prems obtain b where b: "x (params_of (h q)) = Ok (VBool b)"
    by (auto simp: boolean_on_def)
  from Cons.prems have rest: "\<forall>g\<in>set gs1. boolean_on x h g" by simp
  show ?case using b Cons.IH[OF rest] by simp
qed

lemma Delete_unchanged: "fst (Delete compile cond h gd) \<noteq> Ok () \<Longrightarrow> snd (Delete compile cond h gd) = gd"
  by (simp add: Delete_def split: outcome.splits)

lemma Keep_unchanged: "fst (Keep compile cond h gd) \<noteq> Ok () \<Longrightarrow> snd (Keep compile cond h gd) = gd"
  by (simp add: Keep_def split: outcome.splits)

lemma stops_Delete_Keep:
  assumes "compile (strings_Trim_quote cond) = Inr x"
      and "goroutines gd = gs1 @ g # gs2"
      and "\<forall>q\<in>set gs1. boolean_on x h q" and "\<not> boolean_on x h g"
  shows "withCondition compile cond cb h gd = stop_result (x (params_of (h g)))"
  using assms(1,2) loop_stops[OF assms(3,4)] by (simp add: withCondition_def)

lemma Error_not_boolean: "x (params_of (h g)) = Error e \<Longrightarrow> \<not> boolean_on x h g"
  by (simp add: boolean_on_def)

lemma Panic_not_boolean: "x (params_of (h g)) = Panic \<Longrightarrow> \<not> boolean_on x h g"
  by (simp add: boolean_on_def)

text \<open>
  C3. If compiling the condition fails with an error, \<^verbatim>\<open>Delete\<close> and \<^verbatim>\<open>Keep\<close>
  return that error and the dump is as before. If the predicate evaluates to a boolean on
  the records before some record and returns an error on that record, they return that
  error and the dump is as before. If it returns an error on any record and panics on
  none, they return an error (that of the first record on which the result is not a
  boolean) and the dump is as before. \<^verbatim>\<open>contains\<close> with a number of arguments other
  than two returns its arity error. Whenever \<^verbatim>\<open>Delete\<close> or \<^verbatim>\<open>Keep\<close> does not return
  \<^verbatim>\<open>nil\<close>, the dump is as before.
\<close>

theorem filter_error_leaves_dump_unchanged:
  "(compile (strings_Trim_quote cond) = Inl e \<longrightarrow>
      Delete compile cond h gd = (Error e, gd) \<and> Keep compile cond h gd = (Error e, gd)) \<and>
   (compile (strings_Trim_quote cond) = Inr x \<and> goroutines gd = gs1 @ g # gs2 \<and>
    (\<forall>q\<in>set gs1. boolean_on x h q) \<and> x (params_of (h g)) = Error e \<longrightarrow>
      Delete compile cond h gd = (Error e, gd) \<and> Keep compile cond h gd = (Error e, gd)) \<and>
   (compile (strings_Trim_quote cond) = Inr x \<and>
    (\<exists>g\<in>set (goroutines gd). \<exists>e. x (params_of (h g)) = Error e) \<and>
    (\<forall>g\<in>set (goroutines gd). x (params_of (h g)) \<noteq> Panic) \<longrightarrow>
      (\<exists>e'. Delete compile cond h gd = (Error e', gd) \<and> Keep compile cond h gd = (Error e', gd))) \<and>
   (length args \<noteq> 2 \<longrightarrow>
      contains_fn args = Error (ErrorString ''contains() accepts exactly two arguments'')) \<and>
   (fst (Delete compile cond h gd) \<noteq> Ok () \<longrightarrow> snd (Delete compile cond h gd) = gd) \<and>
   (fst (Keep compile cond h gd) \<noteq> Ok () \<longrightarrow> snd (Keep compile cond h gd) = gd)"
proof (intro conjI impI)
  assume "compile (strings_Trim_quote cond) = Inl e"
  then show "Delete compile cond h gd = (Error e, gd)" "Keep compile cond h gd = (Error e, gd)"
    by (simp_all add: Delete_def Keep_def withCondition_def)
next
  assume a: "compile (strings_Trim_quote cond) = Inr x \<and> goroutines gd = gs1 @ g # gs2 \<and>
    (\<forall>q\<in>set gs1. boolean_on x h q) \<and> x (params_of (h g)) = Error e"
  then have nb: "\<not> boolean_on x h g" by (simp add: Error_not_boolean)
  from a nb have w: "\<And>cb. withCondition compile cond cb h gd = Error e"
    using stops_Delete_Keep[of compile cond x gd gs1 g gs2 h] by (simp add: stop_result_def)
  show "Delete compile cond h gd = (Error e, gd)" "Keep compile cond h gd = (Error e, gd)"
    by (simp_all add: Delete_def Keep_def w)
next
  assume a: "compile (strings_Trim_quote cond) = Inr x \<and>
    (\<exists>g\<in>set (goroutines gd). \<exists>e. x (params_of (h g)) = Error e) \<and>
    (\<forall>g\<in>set (goroutines gd). x (params_of (h g)) \<noteq> Panic)"
  then have "\<exists>g\<in>set (goroutines gd). \<not> boolean_on x h g"
    using Error_not_boolean by blast
  from split_list_first_prop[OF this] obtain gs1 g gs2 where
    sp: "goroutines gd = gs1 @ g # gs2" "\<not> boolean_on x h g" "\<forall>q\<in>set gs1. boolean_on x h q"
    by auto
  from sp(1) a have np: "x (params_of (h g)) \<noteq> Panic" by simp
  then obtain e' where e': "stop_result (x (params_of (h g))) = Error e'"
    by (cases "x (params_of (h g))") (simp_all add: stop_result_def)
  from a sp e' have w: "\<And>cb. withCondition compile cond cb h gd = Error e'"
    using stops_Delete_Keep[of compile cond x gd gs1 g gs2 h] by simp
  have "Delete compile cond h gd = (Error e', gd) \<and> Keep compile cond h gd = (Error e', gd)"
    by (simp add: Delete_def Keep_def w)
  then show "\<exists>e'. Delete compile cond h gd = (Error e', gd) \<and> Keep compile cond h gd = (Error e', gd)"
    by blast
next
  assume "length args \<noteq> 2"
  then show "contains_fn args = Error (ErrorString ''contains() accepts exactly two arguments'')"
    by (simp add: contains_fn_def)
next
  assume "fst (Delete compile cond h gd) \<noteq> Ok ()"
  then show "snd (Delete compile cond h gd) = gd" by (rule Delete_unchanged)
next
  assume "fst (Keep compile cond h gd) \<noteq> Ok ()"
  then show "snd (Keep compile cond h gd) = gd" by (rule Keep_unchanged)
qed


theorem filter_error_leaves_dump_unchanged_witness:
  "sample_compile (strings_Trim_quote (CHR 0x22 # ''contains(trace)'' @ [CHR 0x22])) =
     Inr (function_stage contains_fn [parameter_stage ''trace'']) \<and>
   function_stage contains_fn [parameter_stage ''trace''] (params_of (sample_heap 0)) =
     Error (ErrorString ''contains() accepts exactly two arguments'') \<and>
   Delete sample_compile (CHR 0x22 # ''contains(trace)'' @ [CHR 0x22]) sample_heap sample_dump =
     (Error (ErrorString ''contains() accepts exactly two arguments''), sample_dump) \<and>
   Keep sample_compile (CHR 0x22 # ''contains(trace)'' @ [CHR 0x22]) sample_heap sample_dump =
     (Error (ErrorString ''contains() accepts exactly two arguments''), sample_dump) \<and>
   sample_compile (strings_Trim_quote ''lines =='') = Inl (ExpressionError ''Invalid token'') \<and>
   Delete sample_compile ''lines =='' sample_heap sample_dump =
     (Error (ExpressionError ''Invalid token''), sample_dump) \<and>
   Keep sample_compile ''lines =='' sample_heap sample_dump =
     (Error (ExpressionError ''Invalid token''), sample_dump) \<and>
   contains_fn [VString ''mutex''] =
     Error (ErrorString ''contains() accepts exactly two arguments'') \<and>
   fst (Delete sample_compile ''lines =='' sample_heap sample_dump) \<noteq> Ok () \<and>
   snd (Delete sample_compile ''lines =='' sample_heap sample_dump) = sample_dump \<and>
   fst (Keep sample_compile ''lines =='' sample_heap sample_dump) \<noteq> Ok () \<and>
   snd (Keep sample_compile ''lines =='' sample_heap sample_dump) = sample_dump"
proof -
  let ?cond = "CHR 0x22 # ''contains(trace)'' @ [CHR 0x22]"
  let ?x = "function_stage contains_fn [parameter_stage ''trace'']"
  let ?e = "ErrorString ''contains() accepts exactly two arguments''"
  have c: "sample_compile (strings_Trim_quote ?cond) = Inr ?x"
    by (simp add: sample_compile_def strings_Trim_quote_def)
  have ev: "?x (params_of (sample_heap 0)) = Error ?e"
    by (simp add: function_stage_def parameter_stage_def params_of_def contains_fn_def)
  have gs: "goroutines sample_dump = [] @ 0 # [1, 2]" by (simp add: sample_dump_def)
  have c2: "sample_compile (strings_Trim_quote ''lines =='') = Inl (ExpressionError ''Invalid token'')"
    by (simp add: sample_compile_def strings_Trim_quote_def)
  from filter_error_leaves_dump_unchanged
      [where compile = sample_compile and cond = ?cond and x = ?x and h = sample_heap
         and gd = sample_dump and ?gs1.0 = "[]" and g = 0 and ?gs2.0 = "[1, 2]" and e = ?e]
    c ev gs
  have r1: "Delete sample_compile ?cond sample_heap sample_dump = (Error ?e, sample_dump)"
    and r1': "Keep sample_compile ?cond sample_heap sample_dump = (Error ?e, sample_dump)"
    by simp_all
  note t = filter_error_leaves_dump_unchanged
      [where compile = sample_compile and cond = "''lines ==''" and h = sample_heap
         and gd = sample_dump and e = "ExpressionError ''Invalid token''"
         and args = "[VString ''mutex'']"]
  from t c2
  have r2: "Delete sample_compile ''lines =='' sample_heap sample_dump =
              (Error (ExpressionError ''Invalid token''), sample_dump)"
    and r2': "Keep sample_compile ''lines =='' sample_heap sample_dump =
              (Error (ExpressionError ''Invalid token''), sample_dump)"
    by blast+
  from t have ar: "contains_fn [VString ''mutex''] = Error ?e" by simp
  from r2 have n1: "fst (Delete sample_compile ''lines =='' sample_heap sample_dump) \<noteq> Ok ()"
    by simp
  from r2' have n2: "fst (Keep sample_compile ''lines =='' sample_heap sample_dump) \<noteq> Ok ()"
    by simp
  from t n1 have u1: "snd (Delete sample_compile ''lines =='' sample_heap sample_dump) = sample_dump"
    by blast
  from t n2 have u2: "snd (Keep sample_compile ''lines =='' sample_heap sample_dump) = sample_dump"
    by blast
  show ?thesis by (intro conjI) (fact c ev r1 r1' c2 r2 r2' ar n1 u1 n2 u2)+
qed

lemma Keep_result:
  assumes "compile (strings_Trim_quote cond) = Inr x" and "\<forall>g\<in>set (goroutines gd). boolean_on x h g"
  shows "Keep compile cond h gd = (Ok (), gd\<lparr>goroutines := filter (passes x h) (goroutines gd)\<rparr>)"
  using assms(1) loop_keep[OF assms(2), of 0 "[]"] by (simp add: Keep_def withCondition_def)

lemma Delete_result:
  assumes "compile (strings_Trim_quote cond) = Inr x" and "\<forall>g\<in>set (goroutines gd). boolean_on x h g"
  shows "Delete compile cond h gd =
    (Ok (), gd\<lparr>goroutines := filter (\<lambda>g. \<not> passes x h g) (goroutines gd)\<rparr>)"
  using assms(1) loop_delete[OF assms(2), of 0 "[]"] by (simp add: Delete_def withCondition_def)

lemma mset_partition_map:
  "mset (map f (filter P xs)) + mset (map f (filter (\<lambda>x. \<not> P x) xs)) = mset (map f xs)"
  by (induction xs) auto

lemma distinct_map_filter_disjoint:
  assumes "distinct (map f xs)"
  shows "set (map f (filter P xs)) \<inter> set (map f (filter (\<lambda>x. \<not> P x) xs)) = {}"
proof -
  from assms have inj: "inj_on f (set xs)" by (simp add: distinct_map)
  show ?thesis
  proof (rule ccontr)
    assume "set (map f (filter P xs)) \<inter> set (map f (filter (\<lambda>x. \<not> P x) xs)) \<noteq> {}"
    then obtain a b where ab: "a \<in> set xs" "P a" "b \<in> set xs" "\<not> P b" "f a = f b" by auto
    from inj ab(1,3,5) have "a = b" by (simp add: inj_on_def)
    with ab(2,4) show False by simp
  qed
qed

lemmas sample_simps =
  sample_compile_def strings_Trim_quote_def sample_heap_def sample_entry_def sample_record_def
  params_of_def Keep_def Delete_def withCondition_def identities_def boolean_on_def
  function_stage_def parameter_stage_def contains_fn_def

text \<open>
  C6 as stated fails on a dump in which two records share an identity: when the predicate
  holds on one and not on the other, both results contain that identity, so their
  identity multisets are not disjoint. Here the records 0 and 3 both have identity 1.
\<close>

theorem shared_identity_lands_in_both_results:
  "fst (Keep sample_compile ''lines == 2'' sample_heap \<lparr>goroutines = [0, 3]\<rparr>) = Ok () \<and>
   fst (Delete sample_compile ''lines == 2'' sample_heap \<lparr>goroutines = [0, 3]\<rparr>) = Ok () \<and>
   identities sample_heap (snd (Keep sample_compile ''lines == 2'' sample_heap \<lparr>goroutines = [0, 3]\<rparr>)) = [1] \<and>
   identities sample_heap (snd (Delete sample_compile ''lines == 2'' sample_heap \<lparr>goroutines = [0, 3]\<rparr>)) = [1] \<and>
   mset (identities sample_heap (snd (Keep sample_compile ''lines == 2'' sample_heap \<lparr>goroutines = [0, 3]\<rparr>)))
     \<inter># mset (identities sample_heap (snd (Delete sample_compile ''lines == 2'' sample_heap \<lparr>goroutines = [0, 3]\<rparr>)))
     \<noteq> {#}"
  by (simp add: sample_simps)

text \<open>
  C6, amended. For a predicate that compiles and evaluates to a boolean on every record of
  the dump, \<^verbatim>\<open>Keep\<close> and \<^verbatim>\<open>Delete\<close> on copies of the dump both succeed; the identity
  multisets of the two results add up to the identity multiset of the dump; no record is
  in both results; when the identities of the dump are pairwise distinct the two identity
  multisets are disjoint; and \<^verbatim>\<open>Delete\<close> after \<^verbatim>\<open>Keep\<close> leaves an empty dump.
\<close>

theorem keep_and_delete_partition:
  assumes "compile (strings_Trim_quote cond) = Inr x"
      and "\<forall>g\<in>set (goroutines gd). boolean_on x h g"
  shows "\<exists>kept deleted.
           Keep compile cond h gd = (Ok (), kept) \<and>
           Delete compile cond h gd = (Ok (), deleted) \<and>
           mset (identities h kept) + mset (identities h deleted) = mset (identities h gd) \<and>
           set (goroutines kept) \<inter> set (goroutines deleted) = {} \<and>
           (distinct (identities h gd) \<longrightarrow>
              mset (identities h kept) \<inter># mset (identities h deleted) = {#}) \<and>
           Delete compile cond h kept = (Ok (), kept\<lparr>goroutines := []\<rparr>)"
proof -
  let ?kept = "gd\<lparr>goroutines := filter (passes x h) (goroutines gd)\<rparr>"
  let ?deleted = "gd\<lparr>goroutines := filter (\<lambda>g. \<not> passes x h g) (goroutines gd)\<rparr>"
  have k: "Keep compile cond h gd = (Ok (), ?kept)"
    using assms by (rule Keep_result)
  have d: "Delete compile cond h gd = (Ok (), ?deleted)"
    using assms by (rule Delete_result)
  have sum: "mset (identities h ?kept) + mset (identities h ?deleted) = mset (identities h gd)"
    using mset_partition_map[of "\<lambda>g. goid (h g)" "passes x h" "goroutines gd"]
    by (simp add: identities_def)
  have ptr: "set (goroutines ?kept) \<inter> set (goroutines ?deleted) = {}" by auto
  have dis: "mset (identities h ?kept) \<inter># mset (identities h ?deleted) = {#}"
    if "distinct (identities h gd)"
  proof -
    from that have "distinct (map (\<lambda>g. goid (h g)) (goroutines gd))"
      by (simp only: identities_def)
    from distinct_map_filter_disjoint[OF this, of "passes x h"]
    have "set (identities h ?kept) \<inter> set (identities h ?deleted) = {}"
      by (simp add: identities_def)
    then have "set_mset (mset (identities h ?kept) \<inter># mset (identities h ?deleted)) = {}"
      by simp
    then show ?thesis by (simp only: set_mset_eq_empty_iff)
  qed
  have sub: "\<forall>g\<in>set (goroutines ?kept). boolean_on x h g" using assms(2) by simp
  have again: "Delete compile cond h ?kept = (Ok (), ?kept\<lparr>goroutines := []\<rparr>)"
    using Delete_result[of compile cond x ?kept h] assms(1) sub by simp
  from k d sum ptr dis again show ?thesis by blast
qed

theorem keep_and_delete_partition_witness:
  "sample_compile (strings_Trim_quote ''lines == 2'') =
     Inr (\<lambda>ps. Ok (VBool (ps ''lines'' = Some (VInt 2)))) \<and>
   boolean_on (\<lambda>ps. Ok (VBool (ps ''lines'' = Some (VInt 2)))) sample_heap 0 \<and>
   boolean_on (\<lambda>ps. Ok (VBool (ps ''lines'' = Some (VInt 2)))) sample_heap 1 \<and>
   boolean_on (\<lambda>ps. Ok (VBool (ps ''lines'' = Some (VInt 2)))) sample_heap 2 \<and>
   distinct (identities sample_heap sample_dump) \<and>
   (\<exists>kept deleted.
      Keep sample_compile ''lines == 2'' sample_heap sample_dump = (Ok (), kept) \<and>
      Delete sample_compile ''lines == 2'' sample_heap sample_dump = (Ok (), deleted) \<and>
      mset (identities sample_heap kept) + mset (identities sample_heap deleted) =
        mset (identities sample_heap sample_dump) \<and>
      set (goroutines kept) \<inter> set (goroutines deleted) = {} \<and>
      mset (identities sample_heap kept) \<inter># mset (identities sample_heap deleted) = {#} \<and>
      Delete sample_compile ''lines == 2'' sample_heap kept = (Ok (), kept\<lparr>goroutines := []\<rparr>))"
proof -
  let ?x = "\<lambda>ps. Ok (VBool (ps ''lines'' = Some (VInt 2)))"
  have c: "sample_compile (strings_Trim_quote ''lines == 2'') = Inr ?x"
    by (simp add: sample_compile_def strings_Trim_quote_def)
  have b0: "boolean_on ?x sample_heap 0" and b1: "boolean_on ?x sample_heap 1"
    and b2: "boolean_on ?x sample_heap 2"
    by (simp_all add: boolean_on_def)
  from b0 b1 b2 have b: "\<forall>g\<in>set (goroutines sample_dump). boolean_on ?x sample_heap g"
    by (simp add: sample_dump_def)
  have d: "distinct (identities sample_heap sample_dump)"
    by (simp add: identities_def sample_dump_def sample_heap_def sample_entry_def)
  from keep_and_delete_partition
      [of sample_compile "''lines == 2''" ?x sample_dump sample_heap] c b d
  have "\<exists>kept deleted.
      Keep sample_compile ''lines == 2'' sample_heap sample_dump = (Ok (), kept) \<and>
      Delete sample_compile ''lines == 2'' sample_heap sample_dump = (Ok (), deleted) \<and>
      mset (identities sample_heap kept) + mset (identities sample_heap deleted) =
        mset (identities sample_heap sample_dump) \<and>
      set (goroutines kept) \<inter> set (goroutines deleted) = {} \<and>
      mset (identities sample_heap kept) \<inter># mset (identities sample_heap deleted) = {#} \<and>
      Delete sample_compile ''lines == 2'' sample_heap kept = (Ok (), kept\<lparr>goroutines := []\<rparr>)"
    by blast
  with c b0 b1 b2 d show ?thesis by blast
qed


lemma eval_args_length: "eval_args as ps = Ok vs \<Longrightarrow> length vs = length as"
  by (induction as arbitrary: vs) (auto split: outcome.splits)

lemma contains_fn_panics:
  assumes "length vs = 2" and "\<exists>v\<in>set vs. \<not> is_string v"
  shows "contains_fn vs = Panic"
proof -
  from assms(1) obtain a b where vs: "vs = [a, b]"
    by (cases vs; cases "tl vs") auto
  show ?thesis using assms(2) unfolding vs contains_fn_def
    by (cases a; cases b) simp_all
qed

lemma lower_fn_panics:
  assumes "length vs = 1" and "\<exists>v\<in>set vs. \<not> is_string v"
  shows "lower_fn ToLower vs = Panic"
proof -
  from assms(1) obtain a where vs: "vs = [a]" by (cases vs) auto
  show ?thesis using assms(2) unfolding vs lower_fn_def by (cases a) simp_all
qed

lemma upper_fn_panics:
  assumes "length vs = 1" and "\<exists>v\<in>set vs. \<not> is_string v"
  shows "upper_fn ToUpper vs = Panic"
proof -
  from assms(1) obtain a where vs: "vs = [a]" by (cases vs) auto
  show ?thesis using assms(2) unfolding vs upper_fn_def by (cases a) simp_all
qed

lemma table_function_panics:
  assumes "functions_table ToLower ToUpper name = Some f"
      and "length vs = (if name = ''contains'' then 2 else 1)"
      and "\<exists>v\<in>set vs. \<not> is_string v"
  shows "f vs = Panic"
proof -
  from assms(1) have "(name = ''contains'' \<and> f = contains_fn) \<or>
      (name = ''lower'' \<and> f = lower_fn ToLower) \<or> (name = ''upper'' \<and> f = upper_fn ToUpper)"
    by (auto simp: functions_table_def split: if_splits)
  then show ?thesis
  proof (elim disjE conjE)
    assume "name = ''contains''" "f = contains_fn"
    with assms(2) contains_fn_panics[OF _ assms(3)] show ?thesis by simp
  next
    assume "name = ''lower''" "f = lower_fn ToLower"
    with assms(2) lower_fn_panics[OF _ assms(3), of ToLower] show ?thesis by simp
  next
    assume "name = ''upper''" "f = upper_fn ToUpper"
    with assms(2) upper_fn_panics[OF _ assms(3), of ToUpper] show ?thesis by simp
  qed
qed

text \<open>
  C10. An expression calls \<^verbatim>\<open>contains\<close>, \<^verbatim>\<open>lower\<close> or \<^verbatim>\<open>upper\<close> of the table with the
  right number of arguments, the arguments evaluate without error on a record, and one of
  the values is not a string. Then the evaluation on that record panics instead of
  returning an error, and when the predicate is a boolean on the records before it,
  \<^verbatim>\<open>Delete\<close>, \<^verbatim>\<open>Keep\<close>, \<^verbatim>\<open>Copy\<close> (with a non-empty condition) and \<^verbatim>\<open>Search\<close>
  panic.
\<close>

theorem non_string_argument_panics:
  assumes "functions_table ToLower ToUpper name = Some f"
      and "length as = (if name = ''contains'' then 2 else 1)"
      and "eval_args as (params_of (h g)) = Ok vs"
      and "\<exists>v\<in>set vs. \<not> is_string v"
      and "compile (strings_Trim_quote cond) = Inr (function_stage f as)"
      and "goroutines gd = gs1 @ g # gs2"
      and "\<forall>q\<in>set gs1. boolean_on (function_stage f as) h q"
      and "cond \<noteq> []"
  shows "function_stage f as (params_of (h g)) = Panic \<and>
         Delete compile cond h gd = (Panic, gd) \<and>
         Keep compile cond h gd = (Panic, gd) \<and>
         Copy compile cond h gd = Panic \<and>
         Search compile cond offset limit h gd = Panic"
proof -
  from eval_args_length[OF assms(3)] assms(2)
  have len: "length vs = (if name = ''contains'' then 2 else 1)" by simp
  have p: "function_stage f as (params_of (h g)) = Panic"
    using table_function_panics[OF assms(1) len assms(4)] assms(3)
    by (simp add: function_stage_def)
  then have nb: "\<not> boolean_on (function_stage f as) h g" by (rule Panic_not_boolean)
  have w: "\<And>cb. withCondition compile cond cb h gd = Panic"
    using stops_Delete_Keep[of compile cond "function_stage f as" gd gs1 g gs2 h] assms(5,6,7) nb p
    by (simp add: stop_result_def)
  show ?thesis
    using p assms(8) by (simp add: Delete_def Keep_def Copy_def Search_def w)
qed

theorem non_string_argument_panics_witness:
  "functions_table id id ''contains'' = Some contains_fn \<and>
   eval_args [parameter_stage ''id'', parameter_stage ''lines''] (params_of (sample_heap 0)) =
     Ok [VInt 1, VInt 2] \<and>
   sample_compile (strings_Trim_quote ''contains(id, lines)'') =
     Inr (function_stage contains_fn [parameter_stage ''id'', parameter_stage ''lines'']) \<and>
   function_stage contains_fn [parameter_stage ''id'', parameter_stage ''lines'']
     (params_of (sample_heap 0)) = Panic \<and>
   Delete sample_compile ''contains(id, lines)'' sample_heap sample_dump = (Panic, sample_dump) \<and>
   Keep sample_compile ''contains(id, lines)'' sample_heap sample_dump = (Panic, sample_dump) \<and>
   Copy sample_compile ''contains(id, lines)'' sample_heap sample_dump = Panic \<and>
   Search sample_compile ''contains(id, lines)'' 0 10 sample_heap sample_dump = Panic"
proof -
  let ?as = "[parameter_stage ''id'', parameter_stage ''lines'']"
  have t: "functions_table id id ''contains'' = Some contains_fn"
    by (simp add: functions_table_def)
  have n: "length ?as = (if ''contains'' = ''contains'' then 2 else 1)" by simp
  have a: "eval_args ?as (params_of (sample_heap 0)) = Ok [VInt 1, VInt 2]"
    by (simp add: parameter_stage_def params_of_def sample_heap_def sample_entry_def)
  have v: "\<exists>v\<in>set [VInt 1, VInt 2]. \<not> is_string v" by simp
  have c: "sample_compile (strings_Trim_quote ''contains(id, lines)'') =
      Inr (function_stage contains_fn ?as)"
    by (simp add: sample_compile_def strings_Trim_quote_def)
  have gs: "goroutines sample_dump = [] @ 0 # [1, 2]" by (simp add: sample_dump_def)
  have pre: "\<forall>q\<in>set []. boolean_on (function_stage contains_fn ?as) sample_heap q" by simp
  have ne: "''contains(id, lines)'' \<noteq> []" by simp
  from non_string_argument_panics
      [where ToLower = id and ToUpper = id and name = "''contains''" and f = contains_fn
         and as = ?as and h = sample_heap and g = 0 and vs = "[VInt 1, VInt 2]"
         and compile = sample_compile and cond = "''contains(id, lines)''" and gd = sample_dump
         and ?gs1.0 = "[]" and ?gs2.0 = "[1, 2]" and offset = 0 and limit = 10,
       OF t n a v c gs pre ne] t a c
  show ?thesis by blast
qed

subsection \<open>Diff\<close>

lemma foldl_left_map:
  "dom (foldl (\<lambda>m v. m(goid (h v) \<mapsto> v)) m0 gs) = dom m0 \<union> (\<lambda>v. goid (h v)) ` set gs \<and>
   (\<forall>k v. foldl (\<lambda>m v. m(goid (h v) \<mapsto> v)) m0 gs k = Some v \<longrightarrow>
      m0 k = Some v \<or> (v \<in> set gs \<and> goid (h v) = k))"
proof (induction gs arbitrary: m0)
  case Nil
  then show ?case by simp
next
  case (Cons g gs)
  show ?case
    using Cons.IH[of "m0(goid (h g) \<mapsto> g)"] by (auto split: if_splits)
qed

lemma left_map_dom: "dom (left_map h gs) = (\<lambda>v. goid (h v)) ` set gs"
  using foldl_left_map[of h Map.empty gs] by (simp add: left_map_def)

lemma left_map_val: "left_map h gs k = Some v \<Longrightarrow> v \<in> set gs \<and> goid (h v) = k"
  using foldl_left_map[of h Map.empty gs] by (simp add: left_map_def)

lemma diff_loop_props:
  assumes "distinct (map (\<lambda>v. goid (h v)) vs)"
      and "diff_loop h vs (l, c, r) = (l', c', r')"
  shows "dom l' = dom l - (\<lambda>v. goid (h v)) ` set vs \<and>
     dom c' = dom c \<union> (dom l \<inter> (\<lambda>v. goid (h v)) ` set vs) \<and>
     dom r' = dom r \<union> ((\<lambda>v. goid (h v)) ` set vs - dom l) \<and>
     (\<forall>k w. l' k = Some w \<longrightarrow> l k = Some w) \<and>
     (\<forall>k w. c' k = Some w \<longrightarrow> c k = Some w \<or> (w \<in> set vs \<and> goid (h w) = k)) \<and>
     (\<forall>k w. r' k = Some w \<longrightarrow> r k = Some w \<or> (w \<in> set vs \<and> goid (h w) = k))"
  using assms
proof (induction vs arbitrary: l c r)
  case Nil
  then show ?case by simp
next
  case (Cons v vs)
  from Cons.prems(1) have d: "distinct (map (\<lambda>v. goid (h v)) vs)"
    and fresh: "goid (h v) \<notin> (\<lambda>v. goid (h v)) ` set vs" by simp_all
  show ?case
  proof (cases "l (goid (h v))")
    case None
    then have nd: "goid (h v) \<notin> dom l" by auto
    from Cons.prems(2) None
    have res: "diff_loop h vs (l, c, r(goid (h v) \<mapsto> v)) = (l', c', r')" by simp
    note ih = Cons.IH[OF d res]
    note h1 = ih[THEN conjunct1]
    note h2 = ih[THEN conjunct2, THEN conjunct1]
    note h3 = ih[THEN conjunct2, THEN conjunct2, THEN conjunct1]
    note h4 = ih[THEN conjunct2, THEN conjunct2, THEN conjunct2, THEN conjunct1]
    note h5 = ih[THEN conjunct2, THEN conjunct2, THEN conjunct2, THEN conjunct2, THEN conjunct1]
    note h6 = ih[THEN conjunct2, THEN conjunct2, THEN conjunct2, THEN conjunct2, THEN conjunct2]
    note i1 = h1 and i2 = h2
    from h3 have i3: "dom r' = insert (goid (h v)) (dom r) \<union> ((\<lambda>v. goid (h v)) ` set vs - dom l)"
      by (simp only: dom_fun_upd option.simps if_False)
    have 1: "dom l' = dom l - (\<lambda>v. goid (h v)) ` set (v # vs)" using i1 nd by auto
    have 2: "dom c' = dom c \<union> (dom l \<inter> (\<lambda>v. goid (h v)) ` set (v # vs))" using i2 nd by auto
    have 3: "dom r' = dom r \<union> ((\<lambda>v. goid (h v)) ` set (v # vs) - dom l)" using i3 nd by auto
    note 4 = h4
    have 5: "\<forall>k w. c' k = Some w \<longrightarrow> c k = Some w \<or> (w \<in> set (v # vs) \<and> goid (h w) = k)"
    proof (intro allI impI)
      fix k w assume "c' k = Some w"
      with h5 have "c k = Some w \<or> (w \<in> set vs \<and> goid (h w) = k)" by blast
      then show "c k = Some w \<or> (w \<in> set (v # vs) \<and> goid (h w) = k)" by auto
    qed
    have 6: "\<forall>k w. r' k = Some w \<longrightarrow> r k = Some w \<or> (w \<in> set (v # vs) \<and> goid (h w) = k)"
    proof (intro allI impI)
      fix k w assume "r' k = Some w"
      with h6 have "(r(goid (h v) \<mapsto> v)) k = Some w \<or> (w \<in> set vs \<and> goid (h w) = k)" by blast
      then show "r k = Some w \<or> (w \<in> set (v # vs) \<and> goid (h w) = k)"
        by (auto split: if_splits)
    qed
    from 1 2 3 4 5 6 show ?thesis by (intro conjI)
  next
    case (Some u)
    then have ind: "goid (h v) \<in> dom l" by auto
    from Cons.prems(2) Some
    have res: "diff_loop h vs (l(goid (h v) := None), c(goid (h v) \<mapsto> v), r) = (l', c', r')"
      by simp
    note ih = Cons.IH[OF d res]
    note h1 = ih[THEN conjunct1]
    note h2 = ih[THEN conjunct2, THEN conjunct1]
    note h3 = ih[THEN conjunct2, THEN conjunct2, THEN conjunct1]
    note h4 = ih[THEN conjunct2, THEN conjunct2, THEN conjunct2, THEN conjunct1]
    note h5 = ih[THEN conjunct2, THEN conjunct2, THEN conjunct2, THEN conjunct2, THEN conjunct1]
    note h6 = ih[THEN conjunct2, THEN conjunct2, THEN conjunct2, THEN conjunct2, THEN conjunct2]
    from h1 have i1: "dom l' = (dom l - {goid (h v)}) - (\<lambda>v. goid (h v)) ` set vs"
      by (simp only: dom_fun_upd simp_thms if_True)
    from h2 have i2: "dom c' = insert (goid (h v)) (dom c) \<union>
        ((dom l - {goid (h v)}) \<inter> (\<lambda>v. goid (h v)) ` set vs)"
      by (simp only: dom_fun_upd option.simps simp_thms if_True if_False)
    from h3 have i3: "dom r' = dom r \<union> ((\<lambda>v. goid (h v)) ` set vs - (dom l - {goid (h v)}))"
      by (simp only: dom_fun_upd simp_thms if_True)
    have 1: "dom l' = dom l - (\<lambda>v. goid (h v)) ` set (v # vs)" using i1 by auto
    have 2: "dom c' = dom c \<union> (dom l \<inter> (\<lambda>v. goid (h v)) ` set (v # vs))"
      using i2 ind by auto
    have 3: "dom r' = dom r \<union> ((\<lambda>v. goid (h v)) ` set (v # vs) - dom l)"
      using i3 ind fresh by auto
    have 4: "\<forall>k w. l' k = Some w \<longrightarrow> l k = Some w"
    proof (intro allI impI)
      fix k w assume "l' k = Some w"
      with h4 have "(l(goid (h v) := None)) k = Some w" by blast
      then show "l k = Some w" by (auto split: if_splits)
    qed
    have 5: "\<forall>k w. c' k = Some w \<longrightarrow> c k = Some w \<or> (w \<in> set (v # vs) \<and> goid (h w) = k)"
    proof (intro allI impI)
      fix k w assume "c' k = Some w"
      with h5 have "(c(goid (h v) \<mapsto> v)) k = Some w \<or> (w \<in> set vs \<and> goid (h w) = k)" by blast
      then show "c k = Some w \<or> (w \<in> set (v # vs) \<and> goid (h w) = k)"
        by (auto split: if_splits)
    qed
    have 6: "\<forall>k w. r' k = Some w \<longrightarrow> r k = Some w \<or> (w \<in> set (v # vs) \<and> goid (h w) = k)"
    proof (intro allI impI)
      fix k w assume "r' k = Some w"
      with h6 have "r k = Some w \<or> (w \<in> set vs \<and> goid (h w) = k)" by blast
      then show "r k = Some w \<or> (w \<in> set (v # vs) \<and> goid (h w) = k)" by auto
    qed
    from 1 2 3 4 5 6 show ?thesis by (intro conjI)
  qed
qed

lemma map_filter_keys:
  assumes "set ks \<subseteq> dom m"
  shows "map (\<lambda>v. goid (h v)) (List.map_filter m ks) = map (\<lambda>k. goid (h (the (m k)))) ks \<and>
         set (List.map_filter m ks) = (\<lambda>k. the (m k)) ` set ks"
  using assms by (induction ks) (auto simp: List.map_filter_def)

lemma dump_from_map:
  assumes "range_order m ks" and "keyed h m"
  shows "identities h (NewGoroutineDumpFromMap ks m) = ks"
    and "set (goroutines (NewGoroutineDumpFromMap ks m)) = ran m"
proof -
  from assms(1) have sub: "set ks \<subseteq> dom m" and eq: "set ks = dom m" by (simp_all add: range_order_def)
  have "map (\<lambda>k. goid (h (the (m k)))) ks = map (\<lambda>k. k) ks"
  proof (rule map_cong[OF refl])
    fix k assume "k \<in> set ks"
    with sub obtain v where "m k = Some v" by auto
    with assms(2) show "goid (h (the (m k))) = k" by (simp add: keyed_def)
  qed
  with map_filter_keys[OF sub, of h] show "identities h (NewGoroutineDumpFromMap ks m) = ks"
    by (simp add: identities_def NewGoroutineDumpFromMap_def)
  have "(\<lambda>k. the (m k)) ` dom m = ran m"
    by (auto simp: ran_def dom_def image_iff) (metis option.sel)
  with map_filter_keys[OF sub, of h] eq
  show "set (goroutines (NewGoroutineDumpFromMap ks m)) = ran m"
    by (simp add: NewGoroutineDumpFromMap_def)
qed


lemma diff_maps_props:
  assumes "distinct (identities h another)"
      and "diff_maps h gd another = (lonly, common, ronly)"
  shows "dom lonly = set (identities h gd) - set (identities h another)"
    and "dom common = set (identities h gd) \<inter> set (identities h another)"
    and "dom ronly = set (identities h another) - set (identities h gd)"
    and "keyed h lonly" and "keyed h common" and "keyed h ronly"
    and "ran lonly \<subseteq> set (goroutines gd)"
    and "ran common \<subseteq> set (goroutines another)"
    and "ran ronly \<subseteq> set (goroutines another)"
proof -
  from assms(1) have d: "distinct (map (\<lambda>v. goid (h v)) (goroutines another))"
    by (simp only: identities_def)
  from assms(2) have r: "diff_loop h (goroutines another)
      (left_map h (goroutines gd), Map.empty, Map.empty) = (lonly, common, ronly)"
    by (simp only: diff_maps_def)
  note p = diff_loop_props[OF d r]
  note p1 = p[THEN conjunct1]
  note p2 = p[THEN conjunct2, THEN conjunct1]
  note p3 = p[THEN conjunct2, THEN conjunct2, THEN conjunct1]
  note p4 = p[THEN conjunct2, THEN conjunct2, THEN conjunct2, THEN conjunct1]
  note p5 = p[THEN conjunct2, THEN conjunct2, THEN conjunct2, THEN conjunct2, THEN conjunct1]
  note p6 = p[THEN conjunct2, THEN conjunct2, THEN conjunct2, THEN conjunct2, THEN conjunct2]
  have ids: "set (identities h gd) = (\<lambda>v. goid (h v)) ` set (goroutines gd)"
    "set (identities h another) = (\<lambda>v. goid (h v)) ` set (goroutines another)"
    by (simp_all add: identities_def)
  show "dom lonly = set (identities h gd) - set (identities h another)"
    using p1 by (simp only: ids left_map_dom)
  show "dom common = set (identities h gd) \<inter> set (identities h another)"
    using p2 by (simp only: ids left_map_dom dom_empty Un_empty_left)
  show "dom ronly = set (identities h another) - set (identities h gd)"
    using p3 by (simp only: ids left_map_dom dom_empty Un_empty_left)
  have l: "\<And>k w. lonly k = Some w \<Longrightarrow> w \<in> set (goroutines gd) \<and> goid (h w) = k"
    using p4 left_map_val by blast
  have c: "\<And>k w. common k = Some w \<Longrightarrow> w \<in> set (goroutines another) \<and> goid (h w) = k"
    using p5 by fastforce
  have rr: "\<And>k w. ronly k = Some w \<Longrightarrow> w \<in> set (goroutines another) \<and> goid (h w) = k"
    using p6 by fastforce
  show "keyed h lonly" "keyed h common" "keyed h ronly"
    using l c rr by (simp_all add: keyed_def)
  show "ran lonly \<subseteq> set (goroutines gd)" using l by (auto simp: ran_def)
  show "ran common \<subseteq> set (goroutines another)" using c by (auto simp: ran_def)
  show "ran ronly \<subseteq> set (goroutines another)" using rr by (auto simp: ran_def)
qed

text \<open>
  C4. The identities of the second dump are pairwise distinct (the claim's assumption on
  the first dump is not needed), and the three result dumps are built in any order Go can
  take for the three maps. Then the identities of the three results are: those of the
  first dump that are not in the second, those in both, those of the second that are not
  in the first. They are pairwise disjoint, their union is the union of the identities
  of the two dumps, and no identity occurs twice in a result. The records of the common
  part are records of the second dump; those of the first part are records of the first
  dump, those of the third part records of the second.
\<close>

theorem Diff_partitions_identities:
  assumes "distinct (identities h another)"
      and "diff_maps h gd another = (lonly, common, ronly)"
      and "range_order lonly kl" and "range_order common kc" and "range_order ronly kr"
  shows "\<exists>onlyInL both onlyInR.
           Diff kl kc kr h gd another = (onlyInL, both, onlyInR) \<and>
           set (identities h onlyInL) = set (identities h gd) - set (identities h another) \<and>
           set (identities h both) = set (identities h gd) \<inter> set (identities h another) \<and>
           set (identities h onlyInR) = set (identities h another) - set (identities h gd) \<and>
           set (identities h onlyInL) \<inter> set (identities h both) = {} \<and>
           set (identities h onlyInL) \<inter> set (identities h onlyInR) = {} \<and>
           set (identities h both) \<inter> set (identities h onlyInR) = {} \<and>
           set (identities h onlyInL) \<union> set (identities h both) \<union> set (identities h onlyInR) =
             set (identities h gd) \<union> set (identities h another) \<and>
           distinct (identities h onlyInL) \<and> distinct (identities h both) \<and>
           distinct (identities h onlyInR) \<and>
           set (goroutines onlyInL) \<subseteq> set (goroutines gd) \<and>
           set (goroutines both) \<subseteq> set (goroutines another) \<and>
           set (goroutines onlyInR) \<subseteq> set (goroutines another)"
proof -
  note m = diff_maps_props[OF assms(1,2)]
  let ?L = "NewGoroutineDumpFromMap kl lonly"
  let ?C = "NewGoroutineDumpFromMap kc common"
  let ?R = "NewGoroutineDumpFromMap kr ronly"
  have D: "Diff kl kc kr h gd another = (?L, ?C, ?R)"
    by (simp add: Diff_def assms(2))
  have iL: "identities h ?L = kl" and gL: "set (goroutines ?L) = ran lonly"
    using dump_from_map[OF assms(3) m(4)] by simp_all
  have iC: "identities h ?C = kc" and gC: "set (goroutines ?C) = ran common"
    using dump_from_map[OF assms(4) m(5)] by simp_all
  have iR: "identities h ?R = kr" and gR: "set (goroutines ?R) = ran ronly"
    using dump_from_map[OF assms(5) m(6)] by simp_all
  from assms(3,4,5) have k: "set kl = dom lonly" "set kc = dom common" "set kr = dom ronly"
    "distinct kl" "distinct kc" "distinct kr"
    by (simp_all add: range_order_def)
  have s1: "set (identities h ?L) = set (identities h gd) - set (identities h another)"
    unfolding iL k(1) by (rule m(1))
  have s2: "set (identities h ?C) = set (identities h gd) \<inter> set (identities h another)"
    unfolding iC k(2) by (rule m(2))
  have s3: "set (identities h ?R) = set (identities h another) - set (identities h gd)"
    unfolding iR k(3) by (rule m(3))
  have d1: "set (identities h ?L) \<inter> set (identities h ?C) = {}" unfolding s1 s2 by blast
  have d2: "set (identities h ?L) \<inter> set (identities h ?R) = {}" unfolding s1 s3 by blast
  have d3: "set (identities h ?C) \<inter> set (identities h ?R) = {}" unfolding s2 s3 by blast
  have u: "set (identities h ?L) \<union> set (identities h ?C) \<union> set (identities h ?R) =
             set (identities h gd) \<union> set (identities h another)"
    unfolding s1 s2 s3 by blast
  have t1: "distinct (identities h ?L)" unfolding iL by (rule k(4))
  have t2: "distinct (identities h ?C)" unfolding iC by (rule k(5))
  have t3: "distinct (identities h ?R)" unfolding iR by (rule k(6))
  have g1: "set (goroutines ?L) \<subseteq> set (goroutines gd)" unfolding gL by (rule m(7))
  have g2: "set (goroutines ?C) \<subseteq> set (goroutines another)" unfolding gC by (rule m(8))
  have g3: "set (goroutines ?R) \<subseteq> set (goroutines another)" unfolding gR by (rule m(9))
  show ?thesis
    by (intro exI conjI, rule D) (fact s1 s2 s3 d1 d2 d3 u t1 t2 t3 g1 g2 g3)+
qed


lemmas diff_simps =
  diff_maps_def left_map_def sample_heap_def sample_entry_def sample_record_def
  identities_def range_order_def Diff_def NewGoroutineDumpFromMap_def List.map_filter_def

theorem Diff_partitions_identities_witness:
  "distinct (identities sample_heap \<lparr>goroutines = [2, 3]\<rparr>) \<and>
   range_order (fst (diff_maps sample_heap \<lparr>goroutines = [0, 1]\<rparr> \<lparr>goroutines = [2, 3]\<rparr>)) [2] \<and>
   range_order (fst (snd (diff_maps sample_heap \<lparr>goroutines = [0, 1]\<rparr> \<lparr>goroutines = [2, 3]\<rparr>))) [1] \<and>
   range_order (snd (snd (diff_maps sample_heap \<lparr>goroutines = [0, 1]\<rparr> \<lparr>goroutines = [2, 3]\<rparr>))) [3] \<and>
   Diff [2] [1] [3] sample_heap \<lparr>goroutines = [0, 1]\<rparr> \<lparr>goroutines = [2, 3]\<rparr> =
     (\<lparr>goroutines = [1]\<rparr>, \<lparr>goroutines = [3]\<rparr>, \<lparr>goroutines = [2]\<rparr>) \<and>
   set (identities sample_heap \<lparr>goroutines = [1]\<rparr>) =
     set (identities sample_heap \<lparr>goroutines = [0, 1]\<rparr>) -
     set (identities sample_heap \<lparr>goroutines = [2, 3]\<rparr>) \<and>
   set (identities sample_heap \<lparr>goroutines = [3]\<rparr>) =
     set (identities sample_heap \<lparr>goroutines = [0, 1]\<rparr>) \<inter>
     set (identities sample_heap \<lparr>goroutines = [2, 3]\<rparr>) \<and>
   set (identities sample_heap \<lparr>goroutines = [2]\<rparr>) =
     set (identities sample_heap \<lparr>goroutines = [2, 3]\<rparr>) -
     set (identities sample_heap \<lparr>goroutines = [0, 1]\<rparr>) \<and>
   set (goroutines \<lparr>goroutines = [3]\<rparr>) \<subseteq> set (goroutines \<lparr>goroutines = [2, 3]\<rparr>)"
proof -
  let ?L = "\<lparr>goroutines = [0, 1]\<rparr>" and ?R = "\<lparr>goroutines = [2, 3]\<rparr>"
  have d: "distinct (identities sample_heap ?R)" by (simp add: diff_simps)
  have m: "diff_maps sample_heap ?L ?R =
      (fst (diff_maps sample_heap ?L ?R), fst (snd (diff_maps sample_heap ?L ?R)),
       snd (snd (diff_maps sample_heap ?L ?R)))" by simp
  have o1: "range_order (fst (diff_maps sample_heap ?L ?R)) [2]"
    by (auto simp: diff_simps split: if_splits)
  have o2: "range_order (fst (snd (diff_maps sample_heap ?L ?R))) [1]"
    by (auto simp: diff_simps split: if_splits)
  have o3: "range_order (snd (snd (diff_maps sample_heap ?L ?R))) [3]"
    by (auto simp: diff_simps split: if_splits)
  have D: "Diff [2] [1] [3] sample_heap ?L ?R =
     (\<lparr>goroutines = [1]\<rparr>, \<lparr>goroutines = [3]\<rparr>, \<lparr>goroutines = [2]\<rparr>)"
    by (simp add: diff_simps)
  from Diff_partitions_identities [OF d m o1 o2 o3]
  obtain a b c where r: "Diff [2] [1] [3] sample_heap ?L ?R = (a, b, c)"
    and p1: "set (identities sample_heap a) =
      set (identities sample_heap ?L) - set (identities sample_heap ?R)"
    and p2: "set (identities sample_heap b) =
      set (identities sample_heap ?L) \<inter> set (identities sample_heap ?R)"
    and p3: "set (identities sample_heap c) =
      set (identities sample_heap ?R) - set (identities sample_heap ?L)"
    and p4: "set (goroutines b) \<subseteq> set (goroutines ?R)"
    by (elim exE conjE) (rule that; assumption)
  from r D have e: "a = \<lparr>goroutines = [1]\<rparr>" "b = \<lparr>goroutines = [3]\<rparr>" "c = \<lparr>goroutines = [2]\<rparr>"
    by simp_all
  note q1 = p1[unfolded e] and q2 = p2[unfolded e] and q3 = p3[unfolded e] and q4 = p4[unfolded e]
  show ?thesis by (intro conjI) (fact d o1 o2 o3 D q1 q2 q3 q4)+
qed

subsection \<open>Dedupe\<close>

lemma foldl_group_step:
  "foldl (group_step h) m0 gs k =
     (if group_of h gs k = [] then m0 k
      else Some ((case m0 k of None \<Rightarrow> [] | Some ids \<Rightarrow> ids) @ group_of h gs k))"
proof (induction gs arbitrary: m0)
  case Nil
  then show ?case by (simp add: group_of_def)
next
  case (Cons g gs)
  show ?case
    unfolding foldl_Cons Cons.IH by (simp add: group_step_def group_of_def)
qed

lemma group_of_Nil_iff: "group_of h gs k = [] \<longleftrightarrow> k \<notin> set (fingerprints h gs)"
  by (auto simp: group_of_def fingerprints_def filter_empty_conv)

lemma group_ids_eq:
  "group_ids h gs k = (if k \<in> set (fingerprints h gs) then Some (group_of h gs k) else None)"
  unfolding group_ids_def foldl_group_step group_of_Nil_iff by simp

lemma dom_group_ids: "dom (group_ids h gs) = set (fingerprints h gs)"
  by (auto simp: group_ids_eq dom_def)

lemma mark_first_eq:
  "mark_first digest ids gs (h, kept) =
     (case first_with h gs digest of
        None \<Rightarrow> (h, kept)
      | Some g \<Rightarrow> (h(g := (h g)\<lparr>duplicates := ids\<rparr>), kept @ [g]))"
  by (induction gs) (simp_all add: first_with_def)

lemma first_with_Some:
  "first_with h gs k = Some g \<Longrightarrow> g \<in> set gs \<and> scrubbedHash (h g) = k"
  unfolding first_with_def by (auto simp: find_Some_iff)

lemma first_with_exists:
  "k \<in> set (fingerprints h gs) \<Longrightarrow> \<exists>g. first_with h gs k = Some g"
  unfolding first_with_def fingerprints_def
  by (cases "List.find (\<lambda>g. scrubbedHash (h g) = k) gs") (auto simp: find_None_iff)

lemma first_with_update [simp]:
  "first_with (h(g := (h g)\<lparr>duplicates := ids\<rparr>)) gs k = first_with h gs k"
proof -
  have "(\<lambda>p. scrubbedHash ((h(g := (h g)\<lparr>duplicates := ids\<rparr>)) p) = k) = (\<lambda>p. scrubbedHash (h p) = k)"
    by (rule ext) simp
  then show ?thesis by (simp only: first_with_def)
qed

lemma dedupe_loop_eq:
  assumes "set ks \<subseteq> dom m" and "set ks \<subseteq> set (fingerprints h gs)" and "distinct ks"
  shows "dedupe_loop m ks gs (h, kept) =
     (marked m ks gs h, kept @ map (\<lambda>k. the (first_with h gs k)) ks)"
  using assms
proof (induction ks arbitrary: h kept)
  case Nil
  then show ?case by (simp add: marked_def)
next
  case (Cons k ks)
  from Cons.prems obtain ids where ids: "m k = Some ids" by auto
  from Cons.prems first_with_exists[of k h gs] obtain g where g: "first_with h gs k = Some g"
    by auto
  let ?h1 = "h(g := (h g)\<lparr>duplicates := ids\<rparr>)"
  have fp: "fingerprints ?h1 gs = fingerprints h gs" by (simp add: fingerprints_def)
  have step: "dedupe_loop m (k # ks) gs (h, kept) = dedupe_loop m ks gs (?h1, kept @ [g])"
    by (simp add: ids mark_first_eq g)
  have p1: "set ks \<subseteq> dom m" using Cons.prems(1) by simp
  have p2: "set ks \<subseteq> set (fingerprints ?h1 gs)" unfolding fp using Cons.prems(2) by simp
  have p3: "distinct ks" using Cons.prems(3) by simp
  have ih: "dedupe_loop m ks gs (?h1, kept @ [g]) =
     (marked m ks gs ?h1, (kept @ [g]) @ map (\<lambda>k. the (first_with ?h1 gs k)) ks)"
    by (rule Cons.IH[OF p1 p2 p3])
  have notfirst: "\<not> (\<exists>k'\<in>set ks. first_with h gs k' = Some g)"
  proof
    assume "\<exists>k'\<in>set ks. first_with h gs k' = Some g"
    then obtain k' where k': "k' \<in> set ks" "first_with h gs k' = Some g" by blast
    from first_with_Some[OF k'(2)] first_with_Some[OF g] have "k' = k" by simp
    with k'(1) Cons.prems(3) show False by simp
  qed
  have heap: "marked m ks gs ?h1 = marked m (k # ks) gs h"
  proof (rule ext)
    fix p
    show "marked m ks gs ?h1 p = marked m (k # ks) gs h p"
    proof (cases "p = g")
      case True
      with notfirst g first_with_Some[OF g] ids show ?thesis by (simp add: marked_def)
    next
      case False
      with g show ?thesis by (auto simp: marked_def)
    qed
  qed
  show ?case unfolding step ih heap by (simp add: g)
qed


lemma marked_frame:
  "(marked m ks gs h p)\<lparr>duplicates := d\<rparr> = (h p)\<lparr>duplicates := d\<rparr>"
  by (simp add: marked_def)

lemma marked_hash [simp]: "scrubbedHash (marked m ks gs h p) = scrubbedHash (h p)"
  by (simp add: marked_def)

lemma marked_goid [simp]: "goid (marked m ks gs h p) = goid (h p)"
  by (simp add: marked_def)

lemma fingerprints_marked [simp]: "fingerprints (marked m ks gs h) xs = fingerprints h xs"
  by (simp add: fingerprints_def)

lemma reps_hash:
  assumes "set ks \<subseteq> set (fingerprints h gs)"
  shows "fingerprints h (map (\<lambda>k. the (first_with h gs k)) ks) = ks"
proof -
  have "map (\<lambda>k. scrubbedHash (h (the (first_with h gs k)))) ks = map (\<lambda>k. k) ks"
  proof (rule map_cong[OF refl])
    fix k assume "k \<in> set ks"
    with assms first_with_exists[of k h gs] obtain g where g: "first_with h gs k = Some g" by auto
    from first_with_Some[OF g] g show "scrubbedHash (h (the (first_with h gs k))) = k" by simp
  qed
  then show ?thesis by (simp add: fingerprints_def comp_def)
qed

lemma first_iff_is_first:
  assumes "set ks = set (fingerprints h gs)"
  shows "(\<exists>k\<in>set ks. first_with h gs k = Some p) \<longleftrightarrow> is_first h gs p"
proof
  assume "\<exists>k\<in>set ks. first_with h gs k = Some p"
  then obtain k where k: "first_with h gs k = Some p" by blast
  from first_with_Some[OF k] k show "is_first h gs p" by (simp add: is_first_def)
next
  assume f: "is_first h gs p"
  then have "first_with h gs (scrubbedHash (h p)) = Some p" by (simp add: is_first_def)
  moreover from first_with_Some[OF this] have "scrubbedHash (h p) \<in> set (fingerprints h gs)"
    by (auto simp: fingerprints_def)
  ultimately show "\<exists>k\<in>set ks. first_with h gs k = Some p" using assms by blast
qed

lemma reps_set:
  assumes "set ks = set (fingerprints h gs)"
  shows "set (map (\<lambda>k. the (first_with h gs k)) ks) = {g \<in> set gs. is_first h gs g}"
proof (intro set_eqI iffI)
  fix g assume "g \<in> set (map (\<lambda>k. the (first_with h gs k)) ks)"
  then obtain k where k: "k \<in> set ks" "g = the (first_with h gs k)" by auto
  with assms first_with_exists[of k h gs] have fg: "first_with h gs k = Some g" by auto
  from first_with_Some[OF fg] fg show "g \<in> {g \<in> set gs. is_first h gs g}"
    by (simp add: is_first_def)
next
  fix g assume "g \<in> {g \<in> set gs. is_first h gs g}"
  then have f: "first_with h gs (scrubbedHash (h g)) = Some g" and "g \<in> set gs"
    by (simp_all add: is_first_def)
  then have "scrubbedHash (h g) \<in> set ks" using assms by (auto simp: fingerprints_def)
  with f show "g \<in> set (map (\<lambda>k. the (first_with h gs k)) ks)"
    by (force simp: image_iff)
qed

lemma length_eq_iff_distinct:
  assumes "distinct ks" and "set ks = set (fingerprints h gs)"
  shows "length gs = length ks \<longleftrightarrow> distinct (fingerprints h gs)"
proof -
  have l: "length (fingerprints h gs) = length gs" by (simp add: fingerprints_def)
  from assms have c: "card (set (fingerprints h gs)) = length ks"
    using distinct_card[of ks] by simp
  show ?thesis
  proof
    assume "length gs = length ks"
    with c l have "card (set (fingerprints h gs)) = length (fingerprints h gs)" by simp
    then show "distinct (fingerprints h gs)" by (rule card_distinct)
  next
    assume "distinct (fingerprints h gs)"
    from distinct_card[OF this] c l show "length gs = length ks" by simp
  qed
qed

lemma distinct_is_first:
  assumes "distinct (fingerprints h gs)" and "g \<in> set gs"
  shows "is_first h gs g"
  using assms unfolding is_first_def first_with_def fingerprints_def
proof (induction gs)
  case Nil
  then show ?case by simp
next
  case (Cons x gs)
  then show ?case by (cases "g = x") (auto simp: image_iff)
qed

lemma distinct_group_of:
  assumes "distinct (fingerprints h gs)" and "g \<in> set gs"
  shows "group_of h gs (scrubbedHash (h g)) = [goid (h g)]"
  using assms unfolding group_of_def fingerprints_def
proof (induction gs)
  case Nil
  then show ?case by simp
next
  case (Cons x gs)
  show ?case
  proof (cases "scrubbedHash (h x) = scrubbedHash (h g)")
    case True
    with Cons.prems have gx: "g = x" by (auto simp: image_iff)
    from Cons.prems(1)
    have fil: "filter (\<lambda>q. scrubbedHash (h q) = scrubbedHash (h x)) gs = []"
      by (auto simp: filter_empty_conv image_iff)
    show ?thesis unfolding gx by (simp add: fil)
  next
    case False
    with Cons show ?thesis by auto
  qed
qed

lemma is_first_group_hd:
  assumes "is_first h gs g"
  shows "\<exists>rest. group_of h gs (scrubbedHash (h g)) = goid (h g) # rest"
  using assms unfolding is_first_def first_with_def group_of_def
proof (induction gs)
  case Nil
  then show ?case by simp
next
  case (Cons x gs)
  then show ?case by (cases "scrubbedHash (h x) = scrubbedHash (h g)") auto
qed

lemma Dedupe_eq:
  assumes "range_order (group_ids h (goroutines gd)) ks"
  shows "Dedupe ks (h, gd) =
     (marked (group_ids h (goroutines gd)) ks (goroutines gd) h,
      if distinct (fingerprints h (goroutines gd)) then gd
      else gd\<lparr>goroutines := map (\<lambda>k. the (first_with h (goroutines gd) k)) ks\<rparr>)"
proof -
  from assms have d: "distinct ks" and s: "set ks = set (fingerprints h (goroutines gd))"
    by (simp_all add: range_order_def dom_group_ids)
  from s have s1: "set ks \<subseteq> dom (group_ids h (goroutines gd))" by (simp add: dom_group_ids)
  from s have s2: "set ks \<subseteq> set (fingerprints h (goroutines gd))" by simp
  note loop = dedupe_loop_eq[OF s1 s2 d, of "[]"]
  note len = length_eq_iff_distinct[OF d s]
  show ?thesis
    unfolding Dedupe_def using len by (simp add: loop)
qed


lemmas dedupe_simps =
  Dedupe_def group_ids_def group_step_def sample_heap_def sample_entry_def sample_record_def
  sample_dump_def range_order_def

lemma sample_order_ba: "range_order (group_ids sample_heap (goroutines sample_dump)) [''bb'', ''aa'']"
  by (auto simp: dedupe_simps split: if_splits)

lemma sample_order_ab: "range_order (group_ids sample_heap (goroutines sample_dump)) [''aa'', ''bb'']"
  by (auto simp: dedupe_simps split: if_splits)

lemma deduped_ba_goroutines: "goroutines (snd deduped_ba) = [1, 0]"
  by (simp add: deduped_ba_def dedupe_simps)

lemma deduped_ab_eq:
  "deduped_ab =
     (sample_heap(0 := (sample_heap 0)\<lparr>duplicates := [1, 3]\<rparr>,
                  1 := (sample_heap 1)\<lparr>duplicates := [2]\<rparr>), \<lparr>goroutines = [0, 1]\<rparr>)"
  unfolding deduped_ab_def
  by (simp add: Dedupe_def group_ids_def group_step_def sample_dump_def)
     (simp add: sample_heap_def sample_entry_def)

lemma deduped_ab_order:
  "range_order (group_ids (fst deduped_ab) (goroutines (snd deduped_ab))) [''aa'', ''bb'']"
  unfolding deduped_ab_eq
  by (auto simp: group_ids_def group_step_def range_order_def sample_heap_def sample_entry_def
      split: if_splits)

lemma deduped_ab_again:
  "goroutines (snd (Dedupe [''aa'', ''bb''] deduped_ab)) = [0, 1]"
  "duplicates (fst (Dedupe [''aa'', ''bb''] deduped_ab) 0) = [1]"
  unfolding deduped_ab_eq
  by (simp_all add: Dedupe_def group_ids_def group_step_def sample_heap_def sample_entry_def
      sample_record_def)

text \<open>
  C2 as stated fails: the representatives are appended in the order in which the
  fingerprint map is iterated, which Go leaves unspecified. With the order
  \<open>bb\<close>, \<open>aa\<close> the dump of the records 0, 1, 2 (fingerprints \<open>aa\<close>, \<open>bb\<close>, \<open>aa\<close>)
  becomes 1, 0, which is not in the order of the original sequence.
\<close>

theorem Dedupe_order_follows_map_iteration:
  "range_order (group_ids sample_heap (goroutines sample_dump)) [''bb'', ''aa''] \<and>
   goroutines sample_dump = [0, 1, 2] \<and>
   goroutines (snd (Dedupe [''bb'', ''aa''] (sample_heap, sample_dump))) = [1, 0] \<and>
   \<not> subseq (goroutines (snd (Dedupe [''bb'', ''aa''] (sample_heap, sample_dump))))
        (goroutines sample_dump)"
proof -
  have g: "goroutines sample_dump = [0, 1, 2]" by (simp add: sample_dump_def)
  have n: "\<not> subseq [1, 0] [0, 1, 2::nat]" by simp
  from sample_order_ba g deduped_ba_goroutines n show ?thesis
    by (simp add: deduped_ba_def)
qed

lemma Dedupe_props:
  assumes "range_order (group_ids h (goroutines gd)) ks"
      and "Dedupe ks (h, gd) = (h', gd')"
  shows "distinct (fingerprints h' (goroutines gd')) \<and>
         set (fingerprints h' (goroutines gd')) = set (fingerprints h (goroutines gd)) \<and>
         set (goroutines gd') = {g \<in> set (goroutines gd). is_first h (goroutines gd) g} \<and>
         (if distinct (fingerprints h (goroutines gd)) then goroutines gd' = goroutines gd
          else fingerprints h' (goroutines gd') = ks) \<and>
         (\<forall>g\<in>set (goroutines gd').
            duplicates (h' g) = group_of h (goroutines gd) (scrubbedHash (h g))) \<and>
         (\<forall>p. (h' p)\<lparr>duplicates := duplicates (h p)\<rparr> = h p)"
proof -
  let ?gs = "goroutines gd"
  let ?m = "group_ids h ?gs"
  let ?reps = "map (\<lambda>k. the (first_with h ?gs k)) ks"
  from assms(1) have d: "distinct ks" and s: "set ks = set (fingerprints h ?gs)"
    by (simp_all add: range_order_def dom_group_ids)
  from Dedupe_eq[OF assms(1)] assms(2)
  have h': "h' = marked ?m ks ?gs h"
    and gd': "gd' = (if distinct (fingerprints h ?gs) then gd else gd\<lparr>goroutines := ?reps\<rparr>)"
    by simp_all
  have rh: "fingerprints h ?reps = ks" using s by (intro reps_hash) simp
  have rs: "set ?reps = {g \<in> set ?gs. is_first h ?gs g}" by (rule reps_set[OF s])
  have 1: "distinct (fingerprints h' (goroutines gd'))"
    unfolding h' gd' using d rh by simp
  have 2: "set (fingerprints h' (goroutines gd')) = set (fingerprints h ?gs)"
    unfolding h' gd' using s rh by simp
  have 3: "set (goroutines gd') = {g \<in> set ?gs. is_first h ?gs g}"
  proof (cases "distinct (fingerprints h ?gs)")
    case True
    then show ?thesis unfolding gd' using distinct_is_first[OF True] by auto
  next
    case False
    then show ?thesis unfolding gd' using rs by simp
  qed
  have 4: "if distinct (fingerprints h ?gs) then goroutines gd' = ?gs
          else fingerprints h' (goroutines gd') = ks"
    unfolding h' gd' using rh by simp
  have 5: "\<forall>g\<in>set (goroutines gd'). duplicates (h' g) = group_of h ?gs (scrubbedHash (h g))"
  proof
    fix g assume "g \<in> set (goroutines gd')"
    with 3 have g: "g \<in> set ?gs" "is_first h ?gs g" by simp_all
    from g(2) have ex: "\<exists>k\<in>set ks. first_with h ?gs k = Some g"
      by (simp add: first_iff_is_first[OF s])
    from g(1) have "scrubbedHash (h g) \<in> set (fingerprints h ?gs)"
      by (simp add: fingerprints_def)
    then have "?m (scrubbedHash (h g)) = Some (group_of h ?gs (scrubbedHash (h g)))"
      by (simp add: group_ids_eq)
    with ex show "duplicates (h' g) = group_of h ?gs (scrubbedHash (h g))"
      unfolding h' by (simp add: marked_def)
  qed
  have 6: "\<forall>p. (h' p)\<lparr>duplicates := duplicates (h p)\<rparr> = h p"
    unfolding h' by (simp add: marked_frame)
  from 1 2 3 4 5 6 show ?thesis by (intro conjI)
qed

text \<open>
  C2, amended. For every order in which Go can iterate the fingerprint map, the dump after
  \<^verbatim>\<open>Dedupe\<close> holds exactly one record per fingerprint of the original dump, and its
  records are exactly the records that are the first of the original sequence with their
  fingerprint. When two records share a fingerprint, the representatives stand in the
  order of the map iteration; when none do, the sequence is the original one. Each
  representative's list of duplicates is the list of the identities of its group in the
  order of the original sequence, and no other field of any record changes.
\<close>

theorem Dedupe_keeps_first_of_each_group:
  assumes "range_order (group_ids h (goroutines gd)) ks"
      and "Dedupe ks (h, gd) = (h', gd')"
  shows "distinct (fingerprints h' (goroutines gd')) \<and>
         set (fingerprints h' (goroutines gd')) = set (fingerprints h (goroutines gd)) \<and>
         set (goroutines gd') = {g \<in> set (goroutines gd). is_first h (goroutines gd) g} \<and>
         (if distinct (fingerprints h (goroutines gd)) then goroutines gd' = goroutines gd
          else fingerprints h' (goroutines gd') = ks) \<and>
         (\<forall>g\<in>set (goroutines gd').
            duplicates (h' g) = group_of h (goroutines gd) (scrubbedHash (h g))) \<and>
         (\<forall>p. (h' p)\<lparr>duplicates := duplicates (h p)\<rparr> = h p)"
  using assms by (rule Dedupe_props)

theorem Dedupe_keeps_first_of_each_group_witness:
  "range_order (group_ids sample_heap (goroutines sample_dump)) [''bb'', ''aa''] \<and>
   Dedupe [''bb'', ''aa''] (sample_heap, sample_dump) = deduped_ba \<and>
   goroutines (snd deduped_ba) = [1, 0] \<and>
   distinct (fingerprints (fst deduped_ba) (goroutines (snd deduped_ba))) \<and>
   set (fingerprints (fst deduped_ba) (goroutines (snd deduped_ba))) =
     set (fingerprints sample_heap (goroutines sample_dump)) \<and>
   set (goroutines (snd deduped_ba)) =
     {g \<in> set (goroutines sample_dump). is_first sample_heap (goroutines sample_dump) g} \<and>
   \<not> distinct (fingerprints sample_heap (goroutines sample_dump)) \<and>
   fingerprints (fst deduped_ba) (goroutines (snd deduped_ba)) = [''bb'', ''aa''] \<and>
   duplicates (fst deduped_ba 0) =
     group_of sample_heap (goroutines sample_dump) (scrubbedHash (sample_heap 0)) \<and>
   group_of sample_heap (goroutines sample_dump) (scrubbedHash (sample_heap 0)) = [1, 3]"
proof -
  have e: "Dedupe [''bb'', ''aa''] (sample_heap, sample_dump) = (fst deduped_ba, snd deduped_ba)"
    by (simp add: deduped_ba_def)
  note t = Dedupe_keeps_first_of_each_group [OF sample_order_ba e]
  note t1 = t[THEN conjunct1]
  note t2 = t[THEN conjunct2, THEN conjunct1]
  note t3 = t[THEN conjunct2, THEN conjunct2, THEN conjunct1]
  note t4 = t[THEN conjunct2, THEN conjunct2, THEN conjunct2, THEN conjunct1]
  note t5 = t[THEN conjunct2, THEN conjunct2, THEN conjunct2, THEN conjunct2, THEN conjunct1]
  have nd: "\<not> distinct (fingerprints sample_heap (goroutines sample_dump))"
    by (simp add: fingerprints_def sample_dump_def sample_heap_def sample_entry_def)
  from t4 nd have o: "fingerprints (fst deduped_ba) (goroutines (snd deduped_ba)) = [''bb'', ''aa'']"
    by simp
  have "0 \<in> set (goroutines (snd deduped_ba))" by (simp add: deduped_ba_goroutines)
  with t5 have du: "duplicates (fst deduped_ba 0) =
     group_of sample_heap (goroutines sample_dump) (scrubbedHash (sample_heap 0))" by blast
  have gr: "group_of sample_heap (goroutines sample_dump) (scrubbedHash (sample_heap 0)) = [1, 3]"
    by (simp add: group_of_def sample_dump_def sample_heap_def sample_entry_def)
  have e': "Dedupe [''bb'', ''aa''] (sample_heap, sample_dump) = deduped_ba"
    by (simp add: deduped_ba_def)
  show ?thesis
    by (intro conjI) (fact sample_order_ba e' deduped_ba_goroutines t1 t2 t3 nd o du gr)+
qed

text \<open>
  C5 as stated fails: a second \<^verbatim>\<open>Dedupe\<close> groups the representatives only, so it
  overwrites each list of duplicates with the record's own identity. Record 0 carries
  the identities 1 and 3 after the first run and only 1 after the second.
\<close>

theorem second_Dedupe_resets_duplicates:
  "range_order (group_ids sample_heap (goroutines sample_dump)) [''aa'', ''bb''] \<and>
   Dedupe [''aa'', ''bb''] (sample_heap, sample_dump) = deduped_ab \<and>
   range_order (group_ids (fst deduped_ab) (goroutines (snd deduped_ab))) [''aa'', ''bb''] \<and>
   goroutines (snd deduped_ab) = [0, 1] \<and>
   duplicates (fst deduped_ab 0) = [1, 3] \<and>
   goroutines (snd (Dedupe [''aa'', ''bb''] deduped_ab)) = [0, 1] \<and>
   duplicates (fst (Dedupe [''aa'', ''bb''] deduped_ab) 0) = [1]"
proof -
  have e: "Dedupe [''aa'', ''bb''] (sample_heap, sample_dump) = deduped_ab"
    by (simp add: deduped_ab_def)
  have k: "goroutines (snd deduped_ab) = [0, 1]" unfolding deduped_ab_eq by simp
  have d1: "duplicates (fst deduped_ab 0) = [1, 3]" unfolding deduped_ab_eq by simp
  show ?thesis
    by (intro conjI) (fact sample_order_ab e deduped_ab_order k d1 deduped_ab_again)+
qed

text \<open>
  C5, amended. For all orders of the two map iterations, the dump after a second
  \<^verbatim>\<open>Dedupe\<close> is the dump after the first (the same records in the same sequence). The
  second run sets the list of duplicates of each kept record to the list that holds only
  its own identity, which is the list after the first run exactly when that list had one
  element, and changes no other field of any record.
\<close>

theorem Dedupe_twice:
  assumes "range_order (group_ids h (goroutines gd)) ks1"
      and "Dedupe ks1 (h, gd) = (h1, gd1)"
      and "range_order (group_ids h1 (goroutines gd1)) ks2"
      and "Dedupe ks2 (h1, gd1) = (h2, gd2)"
  shows "gd2 = gd1 \<and>
         (\<forall>g\<in>set (goroutines gd2). duplicates (h2 g) = [goid (h g)]) \<and>
         (\<forall>g\<in>set (goroutines gd2).
            (duplicates (h2 g) = duplicates (h1 g)) = (length (duplicates (h1 g)) = 1)) \<and>
         (\<forall>p. (h2 p)\<lparr>duplicates := duplicates (h1 p)\<rparr> = h1 p)"
proof -
  note a = Dedupe_props[OF assms(1,2)]
  note a1 = a[THEN conjunct1]
  note a3 = a[THEN conjunct2, THEN conjunct2, THEN conjunct1]
  note a5 = a[THEN conjunct2, THEN conjunct2, THEN conjunct2, THEN conjunct2, THEN conjunct1]
  note a6 = a[THEN conjunct2, THEN conjunct2, THEN conjunct2, THEN conjunct2, THEN conjunct2]
  note b = Dedupe_props[OF assms(3,4)]
  note b4 = b[THEN conjunct2, THEN conjunct2, THEN conjunct2, THEN conjunct1]
  note b5 = b[THEN conjunct2, THEN conjunct2, THEN conjunct2, THEN conjunct2, THEN conjunct1]
  note b6 = b[THEN conjunct2, THEN conjunct2, THEN conjunct2, THEN conjunct2, THEN conjunct2]
  from Dedupe_eq[OF assms(3)] assms(4) a1 have 1: "gd2 = gd1" by simp
  have id1: "\<And>p. goid (h1 p) = goid (h p)"
  proof -
    fix p
    from a6 have "goid ((h1 p)\<lparr>duplicates := duplicates (h p)\<rparr>) = goid (h p)" by simp
    then show "goid (h1 p) = goid (h p)" by simp
  qed
  have 2: "\<forall>g\<in>set (goroutines gd2). duplicates (h2 g) = [goid (h g)]"
  proof
    fix g assume g: "g \<in> set (goroutines gd2)"
    with 1 have g1: "g \<in> set (goroutines gd1)" by simp
    from b5 g have "duplicates (h2 g) = group_of h1 (goroutines gd1) (scrubbedHash (h1 g))"
      by blast
    also have "\<dots> = [goid (h1 g)]" by (rule distinct_group_of[OF a1 g1])
    finally show "duplicates (h2 g) = [goid (h g)]" by (simp add: id1)
  qed
  have 3: "\<forall>g\<in>set (goroutines gd2).
            (duplicates (h2 g) = duplicates (h1 g)) = (length (duplicates (h1 g)) = 1)"
  proof
    fix g assume g: "g \<in> set (goroutines gd2)"
    with 1 have g1: "g \<in> set (goroutines gd1)" by simp
    with a3 have "is_first h (goroutines gd) g" by simp
    from is_first_group_hd[OF this] obtain rest where
      "group_of h (goroutines gd) (scrubbedHash (h g)) = goid (h g) # rest" by blast
    with a5 g1 have d1: "duplicates (h1 g) = goid (h g) # rest" by simp
    from 2 g have d2: "duplicates (h2 g) = [goid (h g)]" by blast
    show "(duplicates (h2 g) = duplicates (h1 g)) = (length (duplicates (h1 g)) = 1)"
      unfolding d1 d2 by auto
  qed
  from 1 2 3 b6 show ?thesis by (intro conjI)
qed

theorem Dedupe_twice_witness:
  "range_order (group_ids sample_heap (goroutines sample_dump)) [''aa'', ''bb''] \<and>
   Dedupe [''aa'', ''bb''] (sample_heap, sample_dump) = deduped_ab \<and>
   range_order (group_ids (fst deduped_ab) (goroutines (snd deduped_ab))) [''aa'', ''bb''] \<and>
   snd (Dedupe [''aa'', ''bb''] deduped_ab) = snd deduped_ab \<and>
   duplicates (fst (Dedupe [''aa'', ''bb''] deduped_ab) 0) = [goid (sample_heap 0)] \<and>
   (duplicates (fst (Dedupe [''aa'', ''bb''] deduped_ab) 1) = duplicates (fst deduped_ab 1)) =
     (length (duplicates (fst deduped_ab 1)) = 1)"
proof -
  have e: "Dedupe [''aa'', ''bb''] (sample_heap, sample_dump) = deduped_ab"
    by (simp add: deduped_ab_def)
  have e1: "Dedupe [''aa'', ''bb''] (sample_heap, sample_dump) = (fst deduped_ab, snd deduped_ab)"
    by (simp add: deduped_ab_def)
  have e2: "Dedupe [''aa'', ''bb''] (fst deduped_ab, snd deduped_ab) =
      (fst (Dedupe [''aa'', ''bb''] deduped_ab), snd (Dedupe [''aa'', ''bb''] deduped_ab))"
    by simp
  note t = Dedupe_twice [OF sample_order_ab e1 deduped_ab_order e2]
  note t1 = t[THEN conjunct1]
  note t2 = t[THEN conjunct2, THEN conjunct1]
  note t3 = t[THEN conjunct2, THEN conjunct2, THEN conjunct1]
  have m0: "0 \<in> set (goroutines (snd (Dedupe [''aa'', ''bb''] deduped_ab)))"
    and m1: "1 \<in> set (goroutines (snd (Dedupe [''aa'', ''bb''] deduped_ab)))"
    by (simp_all add: deduped_ab_again)
  from t2 m0 have d0: "duplicates (fst (Dedupe [''aa'', ''bb''] deduped_ab) 0) = [goid (sample_heap 0)]"
    by blast
  from t3 m1 have d1:
    "(duplicates (fst (Dedupe [''aa'', ''bb''] deduped_ab) 1) = duplicates (fst deduped_ab 1)) =
     (length (duplicates (fst deduped_ab 1)) = 1)"
    by blast
  show ?thesis
    by (intro conjI) (fact sample_order_ab e deduped_ab_order t1 d0 d1)+
qed

end
